theory Spec2Isabelle
  imports Complex_Main "HOL-Library.Log_Nat"
begin

section \<open>The LED strip simulator front end (www/simulator.js)\<close>

text \<open>
  A shallow embedding of the two classes of \<^verbatim>\<open>simulator.js\<close> that do the work:
  \<^verbatim>\<open>GifRecorder\<close> (frame capture and export with per-frame delays) and
  \<^verbatim>\<open>StripRenderer\<close> (auto-fit geometry and per-light tinted compositing).
  Object fields become record fields, methods become functions from the object to the
  updated object, and a thrown \<^verbatim>\<open>TypeError\<close> becomes the left summand of the result.
\<close>

subsection \<open>Numbers\<close>

text \<open>
  A JavaScript number is an IEEE 754 double: finite, \<^verbatim>\<open>Infinity\<close>, \<^verbatim>\<open>-Infinity\<close> or
  \<^verbatim>\<open>NaN\<close>. A finite number is modelled by the rational it denotes, and every addition,
  subtraction, multiplication and division rounds its exact result to the nearest double
  (\<open>to_double\<close>). The sign of zero is not represented. The special values are kept,
  because a division by zero produces them instead of raising.
\<close>

datatype number = Num rat | Infinity | NegInfinity | NaN

fun isFinite :: "number \<Rightarrow> bool" where
  "isFinite (Num r) = True"
| "isFinite _ = False"

definition inf_of_sign :: "rat \<Rightarrow> number" where
  "inf_of_sign s = (if s = 0 then NaN else if 0 < s then Infinity else NegInfinity)"

fun sign_of :: "number \<Rightarrow> rat" where
  "sign_of (Num r) = sgn r"
| "sign_of Infinity = 1"
| "sign_of NegInfinity = - 1"
| "sign_of NaN = 0"

text \<open>The nearest integer, a tie going to the even one.\<close>

definition round_half_even :: "rat \<Rightarrow> int" where
  "round_half_even r =
     (let f = \<lfloor>r\<rfloor>; d = r - of_int f
      in if d < 1 / 2 then f else if 1 / 2 < d then f + 1 else if even f then f else f + 1)"

text \<open>The binary exponent of a positive rational \<open>x\<close>: the \<open>e\<close> with \<open>2\<^sup>e \<le> x < 2\<^sup>e\<^sup>+\<^sup>1\<close>.\<close>

definition ilog2 :: "rat \<Rightarrow> int" where
  "ilog2 x =
     (let (p, q) = quotient_of x; d = bitlen p - bitlen q
      in if 2 powi d \<le> x then d else d - 1)"

text \<open>
  Rounding to the nearest double (binary64, round to nearest, ties to even). A double has
  a significand of 53 bits and an exponent from -1022 to 1023; below the exponent -1022
  the spacing stays that of the subnormal numbers, \<open>2\<^sup>-\<^sup>1\<^sup>0\<^sup>7\<^sup>4\<close>. A rounded value that
  reaches \<open>2\<^sup>1\<^sup>0\<^sup>2\<^sup>4\<close> overflows to the infinity of its sign.
\<close>

definition double_limit :: rat where
  "double_limit = 2 powi 1024"

definition to_double :: "rat \<Rightarrow> number" where
  "to_double x =
     (if x = 0 then Num 0
      else
        let e = max (ilog2 \<bar>x\<bar>) (- 1022);
            ulp = 2 powi (e - 52);
            r = of_int (round_half_even (x / ulp)) * ulp
        in if double_limit \<le> \<bar>r\<bar> then inf_of_sign (sgn x) else Num r)"

fun js_neg :: "number \<Rightarrow> number" where
  "js_neg (Num r) = Num (- r)"
| "js_neg Infinity = NegInfinity"
| "js_neg NegInfinity = Infinity"
| "js_neg NaN = NaN"

fun js_add :: "number \<Rightarrow> number \<Rightarrow> number" where
  "js_add (Num a) (Num b) = to_double (a + b)"
| "js_add NaN _ = NaN"
| "js_add _ NaN = NaN"
| "js_add Infinity NegInfinity = NaN"
| "js_add NegInfinity Infinity = NaN"
| "js_add Infinity _ = Infinity"
| "js_add _ Infinity = Infinity"
| "js_add NegInfinity _ = NegInfinity"
| "js_add _ NegInfinity = NegInfinity"

definition js_sub :: "number \<Rightarrow> number \<Rightarrow> number" where
  "js_sub a b = js_add a (js_neg b)"

fun js_mul :: "number \<Rightarrow> number \<Rightarrow> number" where
  "js_mul (Num a) (Num b) = to_double (a * b)"
| "js_mul NaN _ = NaN"
| "js_mul _ NaN = NaN"
| "js_mul a b = inf_of_sign (sign_of a * sign_of b)"

text \<open>
  Division: a finite number divided by zero is \<^verbatim>\<open>NaN\<close> for \<^verbatim>\<open>0 / 0\<close> and an infinity
  of the dividend's sign otherwise (the zero divisors of this program are differences
  \<^verbatim>\<open>x - x\<close>, which are positive zeros).
\<close>

fun js_div :: "number \<Rightarrow> number \<Rightarrow> number" where
  "js_div (Num a) (Num b) = (if b = 0 then inf_of_sign (sgn a) else to_double (a / b))"
| "js_div NaN _ = NaN"
| "js_div _ NaN = NaN"
| "js_div (Num a) _ = Num 0"
| "js_div a (Num b) = inf_of_sign (sign_of a * (if b < 0 then - 1 else 1))"
| "js_div _ _ = NaN"

text \<open>The comparisons \<^verbatim>\<open><\<close> and \<^verbatim>\<open>>\<close>; every comparison with \<^verbatim>\<open>NaN\<close> is false.\<close>

fun js_lt :: "number \<Rightarrow> number \<Rightarrow> bool" where
  "js_lt (Num a) (Num b) = (a < b)"
| "js_lt NaN _ = False"
| "js_lt _ NaN = False"
| "js_lt _ NegInfinity = False"
| "js_lt NegInfinity _ = True"
| "js_lt Infinity _ = False"
| "js_lt _ Infinity = True"

definition js_gt :: "number \<Rightarrow> number \<Rightarrow> bool" where
  "js_gt a b = js_lt b a"

text \<open>
  \<^verbatim>\<open>Math.round\<close>: the nearest integer, a tie going up. It is exact: the nearest integer
  of a double is a double.
\<close>

definition round_half_up :: "rat \<Rightarrow> int" where
  "round_half_up r = \<lfloor>r + 1 / 2\<rfloor>"

fun Math_round :: "number \<Rightarrow> number" where
  "Math_round (Num r) = Num (of_int (round_half_up r))"
| "Math_round x = x"

definition Math_min :: "nat \<Rightarrow> nat \<Rightarrow> nat" where
  "Math_min a b = (if b < a then b else a)"

text \<open>Decimal rendering of an integer, as string concatenation with a number gives it.\<close>

definition digit_char :: "nat \<Rightarrow> char" where
  "digit_char d = char_of (48 + d)"

function string_of_nat :: "nat \<Rightarrow> string" where
  "string_of_nat n =
     (if n < 10 then [digit_char n] else string_of_nat (n div 10) @ [digit_char (n mod 10)])"
  by pat_completeness auto
termination
  by (relation "measure (\<lambda>n. n)") auto

declare string_of_nat.simps [simp del]

definition string_of_int :: "int \<Rightarrow> string" where
  "string_of_int k = (if k < 0 then CHR ''-'' # string_of_nat (nat (- k)) else string_of_nat (nat k))"

text \<open>
  The string of a number that is an integer or a special value. The digits are those of
  the integer, which is what JavaScript prints for an integer of magnitude below
  \<open>10\<^sup>2\<^sup>1\<close>.
\<close>

fun string_of_number :: "number \<Rightarrow> string" where
  "string_of_number (Num r) = string_of_int \<lfloor>r\<rfloor>"
| "string_of_number Infinity = ''Infinity''"
| "string_of_number NegInfinity = ''-Infinity''"
| "string_of_number NaN = ''NaN''"

subsection \<open>Configuration constants\<close>

definition maxSize :: rat where
  "maxSize = 600"

definition offPixelBrightness :: int where
  "offPixelBrightness = 30"

definition gifWorkers :: nat where
  "gifWorkers = 4"

definition gifQuality :: nat where
  "gifQuality = 0"

subsection \<open>Canvas surfaces\<close>

text \<open>
  A canvas is its two dimensions and what has been drawn on it, in order. Each drawing
  operation records the compositing mode and fill style of its context at the time of the
  call. The scratch (tint) canvas has the size of the sprite, and every operation on it
  covers it whole, so \<^verbatim>\<open>clearRect\<close> empties its history.
\<close>

datatype composite = source_over | lighten | source_in

datatype tint_op =
    drawImage_sprite composite
  | fillRect_tint composite string

datatype canvas_op =
    fillRect composite string number number number number
  | drawImage composite "tint_op list" number number

record canvas =
  width :: number
  height :: number
  content :: "canvas_op list"

subsection \<open>GifRecorder\<close>

record frame =
  timestamp :: int
  frame_canvas :: canvas

text \<open>
  The encoder (\<^verbatim>\<open>gif.js\<close>) is an external library. A \<^verbatim>\<open>GIF\<close> object is modelled by
  what the recorder hands to it: its options, the frames added with their delays, and
  whether \<^verbatim>\<open>render()\<close> has been called. The recorder keeps the encoders it has created
  in \<open>gifs\<close>, and the images it has appended to the \<^verbatim>\<open>results\<close> element in \<open>results\<close>.
\<close>

record gif =
  workers :: nat
  quality :: nat
  gif_frames :: "(canvas \<times> int) list"
  rendering :: bool

record 'blob gif_recorder =
  btnRecord_innerText :: string
  btnRecord_disabled :: bool
  progressText_innerText :: string
  frames :: "frame list"
  active :: bool
  gifs :: "gif list"
  results :: "'blob list"

definition start :: "'blob gif_recorder \<Rightarrow> 'blob gif_recorder" where
  "start self =
     self\<lparr>active := True,
          progressText_innerText := ''Recording'',
          btnRecord_innerText := ''Stop''\<rparr>"

definition clear :: "'blob gif_recorder \<Rightarrow> 'blob gif_recorder" where
  "clear self = self\<lparr>frames := []\<rparr>"

text \<open>\<^verbatim>\<open>addFrame\<close>; the clock reading \<^verbatim>\<open>new Date().getTime()\<close> is the parameter \<open>now\<close>.\<close>

definition addFrame :: "int \<Rightarrow> canvas \<Rightarrow> 'blob gif_recorder \<Rightarrow> 'blob gif_recorder" where
  "addFrame now cv self =
     (if \<not> active self then self
      else
        let newCanvas = \<lparr>width = width cv, height = height cv, content = content cv\<rparr>
        in self\<lparr>frames := frames self @ [\<lparr>timestamp = now, frame_canvas = newCanvas\<rparr>]\<rparr>)"

text \<open>
  The loop of \<^verbatim>\<open>generateGif\<close> that adds every frame to the encoder:
  \<^verbatim>\<open>for (let i = 0; i < this.frames.length; i++) { if (i + 1 < this.frames.length) delay = ...;
  gif.addFrame(this.frames[i].canvas, {delay: delay, copy: true}); }\<close>
\<close>

function addFrames_loop :: "nat \<Rightarrow> int \<Rightarrow> frame list \<Rightarrow> gif \<Rightarrow> gif" where
  "addFrames_loop i delay fs g =
     (if i < length fs then
        let delay' = (if i + 1 < length fs then timestamp (fs ! (i + 1)) - timestamp (fs ! i)
                      else delay)
        in addFrames_loop (i + 1) delay' fs
             (g\<lparr>gif_frames := gif_frames g @ [(frame_canvas (fs ! i), delay')]\<rparr>)
      else g)"
  by pat_completeness auto
termination
  by (relation "measure (\<lambda>(i, delay, fs, g). length fs - i)") auto

declare addFrames_loop.simps [simp del]

definition generateGif :: "'blob gif_recorder \<Rightarrow> 'blob gif_recorder" where
  "generateGif self =
     (if length (frames self) = 0 then
        self\<lparr>progressText_innerText := ''No frames'', btnRecord_disabled := False\<rparr>
      else
        let g = \<lparr>workers = gifWorkers, quality = gifQuality, gif_frames = [], rendering = False\<rparr>;
            g = addFrames_loop 0 1000 (frames self) g
        in self\<lparr>gifs := gifs self @ [g\<lparr>rendering := True\<rparr>]\<rparr>)"

definition stop :: "'blob gif_recorder \<Rightarrow> 'blob gif_recorder" where
  "stop self =
     generateGif (self\<lparr>btnRecord_disabled := True,
                       active := False,
                       btnRecord_innerText := ''Record''\<rparr>)"

text \<open>The click handler of the record button.\<close>

definition btnRecord_onclick :: "'blob gif_recorder \<Rightarrow> 'blob gif_recorder" where
  "btnRecord_onclick self = (if active self then stop self else start self)"

text \<open>
  The handlers registered on the encoder with \<^verbatim>\<open>gif.on\<close>, by event. The progress is a
  fraction; the finished event carries the encoded blob.
\<close>

datatype 'blob gif_event = ev_start | ev_progress rat | ev_abort | ev_finished 'blob

fun gif_on :: "'blob gif_event \<Rightarrow> 'blob gif_recorder \<Rightarrow> 'blob gif_recorder" where
  "gif_on ev_start self = self\<lparr>progressText_innerText := ''Starting''\<rparr>"
| "gif_on (ev_progress progress) self =
     self\<lparr>progressText_innerText
            := string_of_number (Math_round (js_mul (Num 100) (Num progress))) @ ''%''\<rparr>"
| "gif_on ev_abort self =
     self\<lparr>progressText_innerText := ''Aborted'', btnRecord_disabled := False\<rparr>"
| "gif_on (ev_finished blob) self =
     (let self = self\<lparr>progressText_innerText := ''Finished''\<rparr>;
          self = self\<lparr>results := results self @ [blob]\<rparr>;
          self = clear self
      in self\<lparr>btnRecord_disabled := False\<rparr>)"

text \<open>
  The capture session of the specification, read off the recorder's fields: armed while
  \<open>active\<close>, encoding while the record button is disabled, idle otherwise.
\<close>

datatype capture_session = Idle | Armed | Encoding

definition session :: "'blob gif_recorder \<Rightarrow> capture_session" where
  "session self =
     (if active self then Armed else if btnRecord_disabled self then Encoding else Idle)"

definition delays :: "frame list \<Rightarrow> int list" where
  "delays fs =
     map snd (gif_frames (addFrames_loop 0 1000 fs
       \<lparr>workers = gifWorkers, quality = gifQuality, gif_frames = [], rendering = False\<rparr>))"

subsection \<open>StripRenderer\<close>

type_synonym point = "rat \<times> rat"
type_synonym pixel = "rat \<times> rat \<times> rat"

text \<open>
  Reading a property of \<^verbatim>\<open>undefined\<close> throws a \<^verbatim>\<open>TypeError\<close>; the string names the
  expression that was undefined. What the object had become when the exception was thrown
  is kept beside the error.
\<close>

datatype error = TypeError string

record tint_context =
  tint_globalCompositeOperation :: composite
  tint_fillStyle :: string
  tint_content :: "tint_op list"

text \<open>
  The renderer. \<open>image_width\<close> and \<open>image_height\<close> are the dimensions of the sprite
  \<^verbatim>\<open>this.image\<close>; \<open>tintCtx\<close> is \<open>None\<close> until the sprite has loaded. \<open>pixels\<close> and
  \<open>layout_map\<close> (\<^verbatim>\<open>this.map\<close>) are \<open>None\<close> while \<^verbatim>\<open>undefined\<close>. The render callbacks act
  on a world \<open>'w\<close> outside the renderer. The canvas dimensions hold the values assigned to
  them; assigning a dimension empties the canvas and resets its context.
\<close>

record 'w strip_renderer =
  canvas :: canvas
  ctx_globalCompositeOperation :: composite
  ctx_fillStyle :: string
  image_width :: nat
  image_height :: nat
  tintCtx :: "tint_context option"
  renderCallbacks :: "(canvas \<Rightarrow> 'w \<Rightarrow> 'w) list"
  pixels :: "pixel list option"
  layout_map :: "point list option"
  scaling :: number
  xOffset :: rat
  yOffset :: rat

definition set_canvas_size :: "number \<Rightarrow> number \<Rightarrow> 'w strip_renderer \<Rightarrow> 'w strip_renderer" where
  "set_canvas_size w h self =
     self\<lparr>canvas := \<lparr>width = w, height = h, content = []\<rparr>,
          ctx_globalCompositeOperation := source_over,
          ctx_fillStyle := ''#000000''\<rparr>"

text \<open>
  The bounding-box loop of \<^verbatim>\<open>resizeCanvas\<close>:
  \<^verbatim>\<open>for (let i = 1; i < this.map.length; i++) { const v = this.map[i]; if (v[0] < xMin) ... }\<close>
\<close>

function bbox_loop :: "nat \<Rightarrow> point list \<Rightarrow> rat \<times> rat \<times> rat \<times> rat \<Rightarrow> rat \<times> rat \<times> rat \<times> rat" where
  "bbox_loop i m (xMin, xMax, yMin, yMax) =
     (if i < length m then
        let v = m ! i;
            xMin = (if fst v < xMin then fst v else xMin);
            xMax = (if fst v > xMax then fst v else xMax);
            yMin = (if snd v < yMin then snd v else yMin);
            yMax = (if snd v > yMax then snd v else yMax)
        in bbox_loop (i + 1) m (xMin, xMax, yMin, yMax)
      else (xMin, xMax, yMin, yMax))"
  by pat_completeness auto
termination
  by (relation "measure (\<lambda>(i, m, b). length m - i)") auto

declare bbox_loop.simps [simp del]

definition bbox :: "point list \<Rightarrow> rat \<times> rat \<times> rat \<times> rat" where
  "bbox m = bbox_loop 1 m (fst (m ! 0), fst (m ! 0), snd (m ! 0), snd (m ! 0))"

definition resizeCanvas :: "'w strip_renderer \<Rightarrow> 'w strip_renderer" where
  "resizeCanvas self =
     (case layout_map self of
        None \<Rightarrow> self
      | Some m \<Rightarrow>
          if length m = 0 \<or> tintCtx self = None then self
          else
            let (xMin, xMax, yMin, yMax) = bbox m;
                maxWidth = js_sub (Num maxSize) (Num (of_nat (image_width self)));
                maxHeight = js_sub (Num maxSize) (Num (of_nat (image_height self)));
                xDiff = js_sub (Num xMax) (Num xMin);
                yDiff = js_sub (Num yMax) (Num yMin);
                self =
                  (if js_gt xDiff yDiff then
                     let s = js_div maxWidth xDiff
                     in set_canvas_size (Num maxSize)
                          (js_add (Math_round (js_mul yDiff s)) (Num (of_nat (image_height self))))
                          (self\<lparr>scaling := s\<rparr>)
                   else
                     let s = js_div maxHeight yDiff
                     in set_canvas_size
                          (js_add (Math_round (js_mul xDiff s)) (Num (of_nat (image_width self))))
                          (Num maxSize)
                          (self\<lparr>scaling := s\<rparr>))
            in self\<lparr>xOffset := - xMin, yOffset := - yMin\<rparr>)"

text \<open>The handler \<^verbatim>\<open>this.image.onload\<close>, for a sprite of \<open>w\<close> by \<open>h\<close> pixels.\<close>

definition image_onload :: "nat \<Rightarrow> nat \<Rightarrow> 'w strip_renderer \<Rightarrow> 'w strip_renderer" where
  "image_onload w h self =
     resizeCanvas (self\<lparr>image_width := w, image_height := h,
                        tintCtx := Some \<lparr>tint_globalCompositeOperation = source_over,
                                         tint_fillStyle = ''#000000'',
                                         tint_content = []\<rparr>\<rparr>)"

definition setPixels :: "pixel list \<Rightarrow> 'w strip_renderer \<Rightarrow> 'w strip_renderer" where
  "setPixels px self = self\<lparr>pixels := Some px\<rparr>"

definition setMap :: "point list \<Rightarrow> 'w strip_renderer \<Rightarrow> 'w strip_renderer" where
  "setMap m self = resizeCanvas (self\<lparr>layout_map := Some m\<rparr>)"

definition addRenderCallback ::
  "(canvas \<Rightarrow> 'w \<Rightarrow> 'w) \<Rightarrow> 'w strip_renderer \<Rightarrow> 'w strip_renderer" where
  "addRenderCallback callback self = self\<lparr>renderCallbacks := renderCallbacks self @ [callback]\<rparr>"

text \<open>
  Make off-pixels visible: the remap of one colour channel, with the product and the
  quotient taken exactly. For a channel value that is an integer from 0 to 255 this is
  the value the code computes in doubles: the product \<open>225 * c\<close> is exact, and the
  quotient \<open>15 * c / 17\<close> is at least \<open>1 / 34\<close> away from every tie, so rounding it to a
  double does not change the nearest integer.
\<close>

definition tint_channel :: "rat \<Rightarrow> int" where
  "tint_channel c =
     offPixelBrightness + round_half_up ((255 - of_int offPixelBrightness) * c / 255)"

definition tint_pixel :: "pixel \<Rightarrow> int \<times> int \<times> int" where
  "tint_pixel p = (case p of (r, g, b) \<Rightarrow> (tint_channel r, tint_channel g, tint_channel b))"

definition rgb_style :: "int \<times> int \<times> int \<Rightarrow> string" where
  "rgb_style p =
     (case p of (r, g, b) \<Rightarrow>
        ''rgb('' @ string_of_int r @ '', '' @ string_of_int g @ '', '' @ string_of_int b @ '')'')"

text \<open>The destination of light \<open>i\<close> on the canvas, as \<^verbatim>\<open>render\<close> computes it.\<close>

definition destination :: "'w strip_renderer \<Rightarrow> point \<Rightarrow> number \<times> number" where
  "destination self v =
     (js_mul (js_add (Num (fst v)) (Num (xOffset self))) (scaling self),
      js_sub (js_sub (height (canvas self))
                (js_mul (js_add (Num (snd v)) (Num (yOffset self))) (scaling self)))
             (Num (of_nat (image_height self))))"

text \<open>
  The body of the per-light loop of \<^verbatim>\<open>render\<close> at index \<open>i\<close>. The colour frame is
  \<open>px\<close> and the layout \<open>m\<close>. \<^verbatim>\<open>this.tintCtx.clearRect\<close> throws while the sprite has not
  loaded, and \<^verbatim>\<open>this.map[i][0]\<close> throws when \<open>i\<close> is not an index of the layout; the
  scratch canvas has been tinted by then.
\<close>

definition render_light ::
  "nat \<Rightarrow> pixel list \<Rightarrow> point list \<Rightarrow> 'w strip_renderer
     \<Rightarrow> (error \<times> 'w strip_renderer) + 'w strip_renderer" where
  "render_light i px m self =
     (let pixel = tint_pixel (px ! i)
      in (case tintCtx self of
            None \<Rightarrow> Inl (TypeError ''this.tintCtx is undefined'', self)
          | Some t \<Rightarrow>
              let t = t\<lparr>tint_content := []\<rparr>;
                  t = t\<lparr>tint_globalCompositeOperation := source_over\<rparr>;
                  t = t\<lparr>tint_content := tint_content t
                         @ [drawImage_sprite (tint_globalCompositeOperation t)]\<rparr>;
                  t = t\<lparr>tint_globalCompositeOperation := source_in\<rparr>;
                  t = t\<lparr>tint_fillStyle := rgb_style pixel\<rparr>;
                  t = t\<lparr>tint_content := tint_content t
                         @ [fillRect_tint (tint_globalCompositeOperation t) (tint_fillStyle t)]\<rparr>;
                  self = self\<lparr>tintCtx := Some t\<rparr>
              in if i < length m then
                   let (x, y) = destination self (m ! i);
                       cv = canvas self;
                       cv = cv\<lparr>content := content cv
                              @ [drawImage (ctx_globalCompositeOperation self) (tint_content t) x y]\<rparr>
                   in Inr (self\<lparr>canvas := cv\<rparr>)
                 else Inl (TypeError ''this.map[i] is undefined'', self)))"

text \<open>
  The loop \<^verbatim>\<open>for (let i = 0; i < l; i++)\<close>, entered at index \<open>i\<close>; an exception ends it.
\<close>

function render_loop ::
  "nat \<Rightarrow> nat \<Rightarrow> pixel list \<Rightarrow> point list \<Rightarrow> 'w strip_renderer
     \<Rightarrow> (error \<times> 'w strip_renderer) + 'w strip_renderer" where
  "render_loop i l px m self =
     (if i < l then
        (case render_light i px m self of
           Inl e \<Rightarrow> Inl e
         | Inr self \<Rightarrow> render_loop (i + 1) l px m self)
      else Inr self)"
  by pat_completeness auto
termination
  by (relation "measure (\<lambda>(i, l, px, m, self). l - i)") auto

declare render_loop.simps [simp del]

text \<open>The loop that calls every render callback with the canvas.\<close>

fun callbacks_loop :: "(canvas \<Rightarrow> 'w \<Rightarrow> 'w) list \<Rightarrow> canvas \<Rightarrow> 'w \<Rightarrow> 'w" where
  "callbacks_loop [] cv w = w"
| "callbacks_loop (callback # callbacks) cv w = callbacks_loop callbacks cv (callback cv w)"

definition render ::
  "'w strip_renderer \<Rightarrow> 'w
     \<Rightarrow> (error \<times> 'w strip_renderer \<times> 'w) + ('w strip_renderer \<times> 'w)" where
  "render self w =
     (case (layout_map self, pixels self) of
        (Some m, Some px) \<Rightarrow>
          let self = self\<lparr>ctx_globalCompositeOperation := source_over\<rparr>;
              self = self\<lparr>ctx_fillStyle := ''black''\<rparr>;
              cv = canvas self;
              cv = cv\<lparr>content := content cv
                     @ [fillRect (ctx_globalCompositeOperation self) (ctx_fillStyle self)
                          (Num 0) (Num 0) (width cv) (height cv)]\<rparr>;
              self = self\<lparr>canvas := cv\<rparr>;
              self = self\<lparr>ctx_globalCompositeOperation := lighten\<rparr>;
              l = Math_min (length px) (length px)
          in (case render_loop 0 l px m self of
                Inl (e, self) \<Rightarrow> Inl (e, self, w)
              | Inr self \<Rightarrow> Inr (self, callbacks_loop (renderCallbacks self) (canvas self) w))
      | _ \<Rightarrow> Inr (self, w))"

text \<open>How many sprites a canvas history holds, and what a run has thrown.\<close>

fun is_drawImage :: "canvas_op \<Rightarrow> bool" where
  "is_drawImage (drawImage c t x y) = True"
| "is_drawImage _ = False"

definition sprites_drawn :: "canvas \<Rightarrow> nat" where
  "sprites_drawn cv = length (filter is_drawImage (content cv))"

fun thrown :: "(error \<times> 'a) + 'b \<Rightarrow> error option" where
  "thrown (Inl (e, s)) = Some e"
| "thrown (Inr s) = None"

fun state_of :: "(error \<times> 'w strip_renderer \<times> 'w) + ('w strip_renderer \<times> 'w) \<Rightarrow> 'w strip_renderer" where
  "state_of (Inl (e, s, w)) = s"
| "state_of (Inr (s, w)) = s"

subsection \<open>Constructors and sample objects\<close>

text \<open>
  The constructors. The texts of the record button and of the progress element, and the
  canvas element, come from the page; the record button is enabled there.
\<close>

definition new_GifRecorder :: "string \<Rightarrow> string \<Rightarrow> 'blob gif_recorder" where
  "new_GifRecorder btn_text progress_text =
     \<lparr>btnRecord_innerText = btn_text, btnRecord_disabled = False,
      progressText_innerText = progress_text,
      frames = [], active = False, gifs = [], results = []\<rparr>"

definition new_StripRenderer :: "canvas \<Rightarrow> 'w strip_renderer" where
  "new_StripRenderer cv =
     \<lparr>canvas = cv, ctx_globalCompositeOperation = source_over, ctx_fillStyle = ''#000000'',
      image_width = 0, image_height = 0, tintCtx = None,
      renderCallbacks = [], pixels = None, layout_map = None,
      scaling = Num 1, xOffset = 0, yOffset = 0\<rparr>"

definition blank_canvas :: canvas where
  "blank_canvas = \<lparr>width = Num 300, height = Num 150, content = []\<rparr>"

definition frames_at :: "int list \<Rightarrow> frame list" where
  "frames_at ts = map (\<lambda>t. \<lparr>timestamp = t, frame_canvas = blank_canvas\<rparr>) ts"

text \<open>A renderer whose 20 by 20 sprite has loaded and that has received the layout \<open>m\<close>.\<close>

definition loaded_renderer :: "point list \<Rightarrow> unit strip_renderer" where
  "loaded_renderer m = setMap m (image_onload 20 20 (new_StripRenderer blank_canvas))"

text \<open>
  The delay that the export loop, entered at index \<open>i\<close> with the carried delay \<open>d\<close>,
  attaches to frame \<open>j\<close>.
\<close>

definition delay_from :: "nat \<Rightarrow> int \<Rightarrow> frame list \<Rightarrow> nat \<Rightarrow> int" where
  "delay_from i d fs j =
     (if j + 1 < length fs then timestamp (fs ! (j + 1)) - timestamp (fs ! j)
      else if i < j then timestamp (fs ! j) - timestamp (fs ! (j - 1))
      else d)"

text \<open>
  A recorder after one session at the record button: armed, one frame captured at time 0,
  stopped, so that an encoder is running on that frame.
\<close>

definition recorded_once :: "unit gif_recorder" where
  "recorded_once =
     btnRecord_onclick (addFrame 0 blank_canvas (btnRecord_onclick (new_GifRecorder ''Record'' [])))"

text \<open>
  The drawing operation that the loop body adds to the canvas for light \<open>j\<close>: the scratch
  canvas, holding the sprite tinted in the remapped colour, composited at the destination.
\<close>

definition sprite_op :: "'w strip_renderer \<Rightarrow> pixel list \<Rightarrow> point list \<Rightarrow> nat \<Rightarrow> canvas_op" where
  "sprite_op self px m j =
     drawImage (ctx_globalCompositeOperation self)
       [drawImage_sprite source_over, fillRect_tint source_in (rgb_style (tint_pixel (px ! j)))]
       (fst (destination self (m ! j))) (snd (destination self (m ! j)))"

section \<open>Properties\<close>

subsection \<open>Rounding to doubles\<close>

text \<open>
  The exponent found by \<open>ilog2\<close> is the binary exponent, rounding to the nearest integer
  is monotone, and the rounded value reaches \<open>double_limit\<close> exactly when the exponent is
  beyond 1023 or the significand has rounded up to \<open>2\<^sup>5\<^sup>3\<close> at the exponent 1023, which is
  the form of the test that evaluates quickly. A rounded value differs from the exact one
  by at most half a unit in the last place, and an integer below \<open>2\<^sup>5\<^sup>3\<close> is a double.
\<close>

lemma ilog2_le:
  assumes "0 < x"
  shows "2 powi (ilog2 x) \<le> x"
proof -
  obtain p q where pq: "quotient_of x = (p, q)" by (cases "quotient_of x")
  then have x: "x = of_int p / of_int q" and q: "0 < q"
    by (simp_all add: quotient_of_div quotient_of_denom_pos)
  with assms have p: "0 < p" by (simp add: zero_less_divide_iff)
  define d where "d = bitlen p - bitlen q"
  have il: "ilog2 x = (if 2 powi d \<le> x then d else d - 1)"
    by (simp add: ilog2_def pq d_def Let_def)
  show ?thesis
  proof (cases "2 powi d \<le> x")
    case True
    then show ?thesis by (simp add: il)
  next
    case False
    from bitlen_bounds [OF p] have lo: "2 ^ nat (bitlen p - 1) \<le> p" by simp
    from bitlen_bounds [OF q] have hi: "q < 2 ^ nat (bitlen q)" by simp
    from p have bp: "1 \<le> bitlen p" by (simp add: bitlen_alt_def)
    have bq: "0 \<le> bitlen q" by (rule bitlen_nonneg)
    have dd: "d - 1 = (bitlen p - 1) - bitlen q" by (simp add: d_def)
    have "(2::rat) powi (d - 1) = 2 powi (bitlen p - 1) / 2 powi (bitlen q)"
      unfolding dd by (rule power_int_diff) simp
    also have "\<dots> = 2 ^ nat (bitlen p - 1) / 2 ^ nat (bitlen q)"
      using bp bq by (simp add: power_int_def)
    also have "\<dots> \<le> of_int p / 2 ^ nat (bitlen q)"
    proof -
      from lo have "(of_int (2 ^ nat (bitlen p - 1)) :: rat) \<le> of_int p"
        by (simp only: of_int_le_iff)
      then show ?thesis by (simp add: divide_right_mono)
    qed
    also have "\<dots> \<le> of_int p / of_int q"
    proof -
      from hi have "(of_int q :: rat) \<le> of_int (2 ^ nat (bitlen q))"
        by (simp only: of_int_le_iff)
      with p q show ?thesis by (simp add: frac_le)
    qed
    finally have "2 powi (d - 1) \<le> x" by (simp only: x)
    with False show ?thesis by (simp only: il if_False)
  qed
qed

lemma ilog2_less:
  assumes "0 < x"
  shows "x < 2 powi (ilog2 x + 1)"
proof -
  obtain p q where pq: "quotient_of x = (p, q)" by (cases "quotient_of x")
  then have x: "x = of_int p / of_int q" and q: "0 < q"
    by (simp_all add: quotient_of_div quotient_of_denom_pos)
  with assms have p: "0 < p" by (simp add: zero_less_divide_iff)
  define d where "d = bitlen p - bitlen q"
  have il: "ilog2 x = (if 2 powi d \<le> x then d else d - 1)"
    by (simp add: ilog2_def pq d_def Let_def)
  show ?thesis
  proof (cases "2 powi d \<le> x")
    case False
    then show ?thesis by (simp add: il)
  next
    case True
    from bitlen_bounds [OF p] have hi: "p < 2 ^ nat (bitlen p)" by simp
    from bitlen_bounds [OF q] have lo: "2 ^ nat (bitlen q - 1) \<le> q" by simp
    from q have bq: "1 \<le> bitlen q" by (simp add: bitlen_alt_def)
    have bp: "0 \<le> bitlen p" by (rule bitlen_nonneg)
    have dd: "d + 1 = bitlen p - (bitlen q - 1)" by (simp add: d_def)
    have "of_int p / of_int q \<le> of_int p / (2 ^ nat (bitlen q - 1) :: rat)"
    proof -
      from lo have "(of_int (2 ^ nat (bitlen q - 1)) :: rat) \<le> of_int q"
        by (simp only: of_int_le_iff)
      with p show ?thesis by (simp add: frac_le)
    qed
    also have "\<dots> < 2 ^ nat (bitlen p) / 2 ^ nat (bitlen q - 1)"
    proof -
      from hi have "(of_int p :: rat) < of_int (2 ^ nat (bitlen p))"
        by (simp only: of_int_less_iff)
      then show ?thesis by (simp add: divide_strict_right_mono)
    qed
    also have "\<dots> = 2 powi (bitlen p) / 2 powi (bitlen q - 1)"
      using bp bq by (simp add: power_int_def)
    also have "\<dots> = 2 powi (d + 1)"
      unfolding dd by (rule power_int_diff [symmetric]) simp
    finally have "x < 2 powi (d + 1)" by (simp only: x)
    with True show ?thesis by (simp only: il if_True)
  qed
qed

lemma round_half_even_near:
  "of_int (round_half_even r) - 1 / 2 \<le> r \<and> r \<le> of_int (round_half_even r) + 1 / 2"
  unfolding round_half_even_def Let_def by (auto; linarith)

lemma round_half_even_of_int: "round_half_even (of_int k) = k"
  by (simp add: round_half_even_def)

lemma round_half_even_mono:
  assumes "r \<le> r'"
  shows "round_half_even r \<le> round_half_even r'"
proof (rule ccontr)
  assume "\<not> ?thesis"
  then have "round_half_even r' + 1 \<le> round_half_even r" by simp
  then have "(of_int (round_half_even r') :: rat) + 1 \<le> of_int (round_half_even r)"
    by (metis of_int_1 of_int_add of_int_le_iff)
  with round_half_even_near [of r] round_half_even_near [of r'] assms
  have "r = r'" by linarith
  with \<open>\<not> ?thesis\<close> show False by simp
qed

lemma round_half_even_pos: "1 \<le> r \<Longrightarrow> 0 < round_half_even r"
  unfolding round_half_even_def Let_def by (auto simp: le_floor_iff)

lemma round_half_even_neg: "r \<le> - 1 \<Longrightarrow> round_half_even r < 0"
proof -
  assume r: "r \<le> - 1"
  then have f: "\<lfloor>r\<rfloor> \<le> - 1" by (simp add: floor_le_iff)
  show ?thesis
  proof (cases "r - of_int \<lfloor>r\<rfloor> < 1 / 2")
    case True
    with f show ?thesis by (simp add: round_half_even_def Let_def)
  next
    case False
    then have "of_int \<lfloor>r\<rfloor> + 1 / 2 \<le> r" by simp
    with r have "(of_int \<lfloor>r\<rfloor> :: rat) < - 1" by linarith
    then have "\<lfloor>r\<rfloor> < - 1" by linarith
    then have "\<lfloor>r\<rfloor> + 1 < 0" by simp
    with f show ?thesis by (simp add: round_half_even_def Let_def)
  qed
qed

lemma round_half_even_nonneg: "0 \<le> r \<Longrightarrow> 0 \<le> round_half_even r"
  unfolding round_half_even_def Let_def by (auto simp: le_floor_iff) 


lemma ulp_le:
  assumes "2 powi (- 1074) \<le> \<bar>x\<bar>"
  shows "2 powi (max (ilog2 \<bar>x\<bar>) (- 1022) - 52) \<le> \<bar>x\<bar>"
proof (cases "- 1022 \<le> ilog2 \<bar>x\<bar>")
  case True
  have "(0::rat) < 2 powi (- 1074)" by simp
  with assms have pos: "0 < \<bar>x\<bar>" by linarith
  have "(2::rat) powi (ilog2 \<bar>x\<bar> - 52) \<le> 2 powi (ilog2 \<bar>x\<bar>)"
    by (rule power_int_increasing) simp_all
  also have "\<dots> \<le> \<bar>x\<bar>" by (rule ilog2_le [OF pos])
  finally show ?thesis using True by (simp add: max_def)
next
  case False
  then have "max (ilog2 \<bar>x\<bar>) (- 1022) - 52 = - 1074" by simp
  with assms show ?thesis by simp
qed

lemma to_double_cases:
  assumes "2 powi (- 1074) \<le> \<bar>x\<bar>"
  shows "to_double x = inf_of_sign (sgn x) \<or> (\<exists>r. to_double x = Num r \<and> sgn r = sgn x)"
proof -
  define ulp :: rat where "ulp = 2 powi (max (ilog2 \<bar>x\<bar>) (- 1022) - 52)"
  have up: "0 < ulp" by (simp add: ulp_def)
  have "(0::rat) < 2 powi (- 1074)" by simp
  with assms have x0: "x \<noteq> 0" by auto
  from ulp_le [OF assms] have le: "ulp \<le> \<bar>x\<bar>" by (simp add: ulp_def)
  have sg: "sgn (of_int (round_half_even (x / ulp)) * ulp) = sgn x"
  proof (cases "0 < x")
    case True
    with le up have "1 \<le> x / ulp" by (simp add: le_divide_eq)
    from round_half_even_pos [OF this] up True show ?thesis
      by (simp add: sgn_mult)
  next
    case False
    with x0 have neg: "x < 0" by simp
    with le up have "x / ulp \<le> - 1" by (simp add: divide_le_eq)
    from round_half_even_neg [OF this] up neg show ?thesis
      by (simp add: sgn_mult)
  qed
  show ?thesis
    using x0 sg by (auto simp: to_double_def Let_def ulp_def)
qed

lemma to_double_0: "to_double 0 = Num 0"
  by (simp add: to_double_def)

lemma to_double_nonneg:
  assumes "0 \<le> x"
  shows "to_double x = Infinity \<or> (\<exists>r. to_double x = Num r \<and> 0 \<le> r)"
proof (cases "x = 0")
  case True
  then show ?thesis by (simp add: to_double_0)
next
  case False
  with assms have pos: "0 < x" by simp
  define ulp :: rat where "ulp = 2 powi (max (ilog2 \<bar>x\<bar>) (- 1022) - 52)"
  have up: "0 < ulp" by (simp add: ulp_def)
  with pos have "0 \<le> x / ulp" by simp
  from round_half_even_nonneg [OF this] up
  have "0 \<le> of_int (round_half_even (x / ulp)) * ulp" by simp
  with pos False show ?thesis
    by (auto simp: to_double_def Let_def ulp_def inf_of_sign_def)
qed

lemma div_zero_to_double:
  assumes "1 \<le> \<bar>x\<bar> \<or> x = 0"
  shows "js_div (to_double x) (Num 0) = inf_of_sign (sgn x)"
proof (cases "x = 0")
  case True
  then show ?thesis by (simp add: to_double_0)
next
  case False
  with assms have "1 \<le> \<bar>x\<bar>" by simp
  moreover have "(2::rat) powi (- 1074) \<le> 2 powi 0"
    by (rule power_int_increasing) simp_all
  ultimately have "2 powi (- 1074) \<le> \<bar>x\<bar>" by simp
  from to_double_cases [OF this] show ?thesis
    by (auto simp: inf_of_sign_def sgn_if split: if_splits)
qed


lemma to_double_overflow:
  assumes "x \<noteq> 0"
  defines "e \<equiv> max (ilog2 \<bar>x\<bar>) (- 1022)"
  defines "ulp \<equiv> 2 powi (e - 52)"
  defines "n \<equiv> round_half_even (x / ulp)"
  shows "(double_limit \<le> \<bar>of_int n * ulp\<bar>) = (1024 \<le> e \<or> (e = 1023 \<and> \<bar>n\<bar> = 2 ^ 53))"
proof -
  from assms(1) have pos: "0 < \<bar>x\<bar>" by simp
  have up: "0 < ulp" by (simp add: ulp_def)
  have ulp52: "ulp * 2 ^ 52 = 2 powi e"
  proof -
    have "(2::rat) powi e = 2 powi ((e - 52) + 52)" by simp
    also have "\<dots> = 2 powi (e - 52) * 2 powi 52"
      by (rule power_int_add) simp
    finally show ?thesis by (simp add: ulp_def)
  qed
  have ulp53: "ulp * 2 ^ 53 = 2 powi (e + 1)"
  proof -
    have "e + 1 = (e - 52) + 53" by simp
    then have "(2::rat) powi (e + 1) = 2 powi ((e - 52) + 53)" by (rule arg_cong)
    also have "\<dots> = 2 powi (e - 52) * 2 powi 53"
      by (rule power_int_add) simp
    finally show ?thesis by (simp add: ulp_def)
  qed
  have abs_r: "\<bar>of_int n * ulp\<bar> = of_int \<bar>n\<bar> * ulp"
    using up by (simp add: abs_mult)
  have lo: "2 powi (ilog2 \<bar>x\<bar>) \<le> \<bar>x\<bar>" by (rule ilog2_le [OF pos])
  have hi: "\<bar>x\<bar> < 2 powi (e + 1)"
  proof -
    have "\<bar>x\<bar> < 2 powi (ilog2 \<bar>x\<bar> + 1)" by (rule ilog2_less [OF pos])
    also have "\<dots> \<le> 2 powi (e + 1)"
      by (rule power_int_increasing) (simp_all add: e_def)
    finally show ?thesis .
  qed
  have n_le: "\<bar>n\<bar> \<le> 2 ^ 53"
  proof -
    from hi have "\<bar>x\<bar> < ulp * 2 ^ 53"
      by (simp only: ulp53)
    then have b: "\<bar>x\<bar> / ulp < 2 ^ 53" using up by (simp add: divide_less_eq mult.commute)
    moreover have "\<bar>x / ulp\<bar> = \<bar>x\<bar> / ulp" using up by (simp add: abs_divide)
    ultimately have "\<bar>x / ulp\<bar> < 2 ^ 53" by (simp only:)
    with abs_ge_self [of "x / ulp"] abs_ge_minus_self [of "x / ulp"]
    have "x / ulp \<le> 2 ^ 53" "- (2 ^ 53) \<le> x / ulp" by linarith+
    then have "x / ulp \<le> of_int (2 ^ 53)" "of_int (- (2 ^ 53)) \<le> x / ulp"
      by simp_all
    from round_half_even_mono [OF this(1)] round_half_even_mono [OF this(2)]
    show ?thesis
      unfolding n_def round_half_even_of_int by simp
  qed
  show ?thesis
  proof (cases "1024 \<le> e")
    case True
    then have ee: "e = ilog2 \<bar>x\<bar>" by (simp add: e_def max_def split: if_splits)
    from lo have "ulp * 2 ^ 52 \<le> \<bar>x\<bar>" by (simp only: ulp52 ee)
    then have b: "2 ^ 52 \<le> \<bar>x\<bar> / ulp" using up by (simp add: le_divide_eq mult.commute)
    have "2 ^ 52 \<le> \<bar>n\<bar>"
    proof (cases "0 < x")
      case True
      with b have "of_int (2 ^ 52) \<le> x / ulp" by simp
      from round_half_even_mono [OF this] show ?thesis
        unfolding n_def round_half_even_of_int by simp
    next
      case False
      with assms(1) have "\<bar>x\<bar> = - x" by simp
      with b have "2 ^ 52 \<le> - (x / ulp)" by simp
      then have "x / ulp \<le> of_int (- (2 ^ 52))" by simp
      from round_half_even_mono [OF this] show ?thesis
        unfolding n_def round_half_even_of_int by simp
    qed
    then have "(2 ^ 52 :: rat) \<le> of_int \<bar>n\<bar>"
      by (metis of_int_le_iff of_int_numeral of_int_power)
    with up have "2 ^ 52 * ulp \<le> of_int \<bar>n\<bar> * ulp" by simp
    then have "ulp * 2 ^ 52 \<le> of_int \<bar>n\<bar> * ulp" by (simp only: mult.commute)
    moreover have "double_limit \<le> 2 powi e"
      unfolding double_limit_def by (rule power_int_increasing) (use True in simp_all)
    ultimately have "double_limit \<le> of_int \<bar>n\<bar> * ulp"
      by (simp only: ulp52)
    with True show ?thesis by (simp only: abs_r) simp
  next
    case False
    then have e: "e \<le> 1023" by simp
    show ?thesis
    proof (cases "e = 1023 \<and> \<bar>n\<bar> = 2 ^ 53")
      case True
      then have "of_int \<bar>n\<bar> * ulp = ulp * 2 ^ 53" by simp
      also have "\<dots> = 2 powi (e + 1)" by (rule ulp53)
      also have "\<dots> = double_limit" using True by (simp add: double_limit_def)
      finally show ?thesis using True by (simp only: abs_r) simp
    next
      case ne: False
      have "of_int \<bar>n\<bar> * ulp < double_limit"
      proof (cases "\<bar>n\<bar> = 2 ^ 53")
        case True
        with ne e have e': "e + 1 < 1024" by simp
        from True have "of_int \<bar>n\<bar> * ulp = ulp * 2 ^ 53" by simp
        also have "\<dots> = 2 powi (e + 1)" by (rule ulp53)
        also have "\<dots> < double_limit"
          unfolding double_limit_def by (rule power_int_strict_increasing) (use e' in simp_all)
        finally show ?thesis .
      next
        case False
        with n_le have "\<bar>n\<bar> < 2 ^ 53" by simp
        then have "(of_int \<bar>n\<bar> :: rat) < 2 ^ 53"
          by (metis of_int_less_iff of_int_numeral of_int_power)
        with up have "of_int \<bar>n\<bar> * ulp < 2 ^ 53 * ulp" by simp
        also have "\<dots> = ulp * 2 ^ 53" by simp
        also have "\<dots> = 2 powi (e + 1)" by (rule ulp53)
        also have "\<dots> \<le> double_limit"
          unfolding double_limit_def by (rule power_int_increasing) (use e in simp_all)
        finally show ?thesis .
      qed
      with ne \<open>\<not> 1024 \<le> e\<close> show ?thesis by (simp only: abs_r) simp
    qed
  qed
qed

lemma to_double_code [code]:
  "to_double x =
     (if x = 0 then Num 0
      else
        let e = max (ilog2 \<bar>x\<bar>) (- 1022);
            ulp = 2 powi (e - 52);
            n = round_half_even (x / ulp)
        in if 1024 \<le> e \<or> (e = 1023 \<and> \<bar>n\<bar> = 2 ^ 53) then inf_of_sign (sgn x)
           else Num (of_int n * ulp))"
proof (cases "x = 0")
  case True
  then show ?thesis by (simp add: to_double_def)
next
  case False
  from to_double_overflow [OF False] False show ?thesis
    by (simp add: to_double_def Let_def)
qed

lemma to_double_near:
  assumes "to_double x = Num r"
  shows "\<bar>r - x\<bar> \<le> 2 powi (max (ilog2 \<bar>x\<bar>) (- 1022) - 52) / 2"
proof (cases "x = 0")
  case True
  with assms show ?thesis by (simp add: to_double_def)
next
  case False
  define ulp :: rat where "ulp = 2 powi (max (ilog2 \<bar>x\<bar>) (- 1022) - 52)"
  have up: "0 < ulp" by (simp add: ulp_def)
  from assms False have r: "r = of_int (round_half_even (x / ulp)) * ulp"
    by (simp add: to_double_def Let_def ulp_def inf_of_sign_def split: if_splits)
  from round_half_even_near [of "x / ulp"]
  have "\<bar>of_int (round_half_even (x / ulp)) - x / ulp\<bar> \<le> 1 / 2" by linarith
  then have "\<bar>of_int (round_half_even (x / ulp)) - x / ulp\<bar> * ulp \<le> 1 / 2 * ulp"
    using up by (simp only: mult_le_cancel_right) simp
  moreover have "\<bar>of_int (round_half_even (x / ulp)) - x / ulp\<bar> * ulp = \<bar>r - x\<bar>"
  proof -
    have "(of_int (round_half_even (x / ulp)) - x / ulp) * ulp = r - x"
      using up by (simp add: r left_diff_distrib)
    then have "\<bar>r - x\<bar> = \<bar>of_int (round_half_even (x / ulp)) - x / ulp\<bar> * \<bar>ulp\<bar>"
      by (simp only: abs_mult [symmetric])
    with up show ?thesis by simp
  qed
  ultimately have "\<bar>r - x\<bar> \<le> 1 / 2 * ulp" by (simp only:)
  then show ?thesis unfolding ulp_def by simp
qed

lemma to_double_of_int:
  assumes "\<bar>k\<bar> < 2 ^ 53"
  shows "to_double (of_int k) = Num (of_int k)"
proof (cases "k = 0")
  case True
  then show ?thesis by (simp add: to_double_def)
next
  case False
  define x :: rat where "x = of_int k"
  define e where "e = max (ilog2 \<bar>x\<bar>) (- 1022)"
  define ulp :: rat where "ulp = 2 powi (e - 52)"
  from False have pos: "0 < \<bar>x\<bar>" by (simp add: x_def)
  from assms have "\<bar>x\<bar> < 2 ^ 53"
    unfolding x_def by (metis of_int_abs of_int_less_iff of_int_numeral of_int_power)
  with ilog2_le [OF pos] have "(2::rat) powi (ilog2 \<bar>x\<bar>) < 2 powi 53" by simp
  have "ilog2 \<bar>x\<bar> < 53"
  proof (rule ccontr)
    assume "\<not> ilog2 \<bar>x\<bar> < 53"
    then have "53 \<le> ilog2 \<bar>x\<bar>" by simp
    then have "(2::rat) powi 53 \<le> 2 powi (ilog2 \<bar>x\<bar>)"
      by (rule power_int_increasing) simp
    with \<open>2 powi (ilog2 \<bar>x\<bar>) < 2 powi 53\<close> show False by simp
  qed
  then have e: "e \<le> 52" by (simp add: e_def)
  then have ulp: "ulp = 1 / 2 ^ nat (52 - e)"
    by (cases "e = 52") (simp_all add: ulp_def power_int_def inverse_eq_divide power_one_over)
  have q: "x / ulp = of_int (k * 2 ^ nat (52 - e))" by (simp add: ulp x_def)
  have n: "round_half_even (x / ulp) = k * 2 ^ nat (52 - e)"
    unfolding q by (rule round_half_even_of_int)
  have r: "of_int (round_half_even (x / ulp)) * ulp = x"
    unfolding n by (simp add: ulp x_def)
  have "\<bar>x\<bar> < double_limit"
  proof -
    have "\<bar>x\<bar> < 2 powi 53" using \<open>\<bar>x\<bar> < 2 ^ 53\<close> by simp
    also have "\<dots> \<le> double_limit"
      unfolding double_limit_def by (rule power_int_increasing) simp_all
    finally show ?thesis .
  qed
  with False r show ?thesis
    by (simp add: to_double_def Let_def x_def [symmetric] e_def [symmetric] ulp_def [symmetric])
qed

lemma to_double_examples:
  "to_double (1 / 10) = Num (3602879701896397 / 2 ^ 55)
   \<and> to_double (29 / 6) = Num (5441849549739349 / 2 ^ 50)
   \<and> to_double (2 ^ 53 + 1) = Num (2 ^ 53)
   \<and> to_double (2 ^ 53 + 3) = Num (2 ^ 53 + 4)"
  by code_simp

subsection \<open>Per-frame delays of the export\<close>

lemma delay_from_step:
  assumes "i < length fs" "i < j" "j < length fs"
  shows "delay_from (i + 1) (delay_from i d fs i) fs j = delay_from i d fs j"
proof (cases "j + 1 < length fs")
  case True
  then show ?thesis by (simp add: delay_from_def)
next
  case False
  show ?thesis
  proof (cases "i + 1 < j")
    case True
    with False assms show ?thesis by (simp add: delay_from_def)
  next
    case False
    with assms have j: "j = i + 1" by simp
    have "delay_from i d fs i = timestamp (fs ! (i + 1)) - timestamp (fs ! i)"
      using assms j by (simp add: delay_from_def)
    moreover have "delay_from (i + 1) (delay_from i d fs i) fs (i + 1) = delay_from i d fs i"
      using \<open>\<not> j + 1 < length fs\<close> j by (simp add: delay_from_def)
    moreover have "delay_from i d fs (i + 1) = timestamp (fs ! (i + 1)) - timestamp (fs ! i)"
      using \<open>\<not> j + 1 < length fs\<close> j by (simp add: delay_from_def)
    ultimately show ?thesis using j by simp
  qed
qed

lemma addFrames_loop_frames:
  "gif_frames (addFrames_loop i d fs g) =
     gif_frames g @ map (\<lambda>j. (frame_canvas (fs ! j), delay_from i d fs j)) [i..<length fs]"
proof (induction i d fs g rule: addFrames_loop.induct)
  case (1 i delay fs g)
  show ?case
  proof (cases "i < length fs")
    case False
    then show ?thesis by (simp add: addFrames_loop.simps)
  next
    case True
    define d' where "d' = (if i + 1 < length fs then timestamp (fs ! (i + 1)) - timestamp (fs ! i) else delay)"
    have d': "d' = delay_from i delay fs i"
      by (simp add: d'_def delay_from_def)
    have step: "addFrames_loop i delay fs g =
        addFrames_loop (i + 1) d' fs (g\<lparr>gif_frames := gif_frames g @ [(frame_canvas (fs ! i), d')]\<rparr>)"
      using True by (subst addFrames_loop.simps) (simp add: d'_def Let_def)
    have IH: "gif_frames (addFrames_loop (i + 1) d' fs (g\<lparr>gif_frames := gif_frames g @ [(frame_canvas (fs ! i), d')]\<rparr>)) =
        (gif_frames g @ [(frame_canvas (fs ! i), d')]) @
          map (\<lambda>j. (frame_canvas (fs ! j), delay_from (i + 1) d' fs j)) [i + 1..<length fs]"
      using "1.IH" [OF True d'_def] by simp
    have same: "map (\<lambda>j. (frame_canvas (fs ! j), delay_from (i + 1) d' fs j)) [i + 1..<length fs] =
        map (\<lambda>j. (frame_canvas (fs ! j), delay_from i delay fs j)) [i + 1..<length fs]"
      using True by (simp add: d' delay_from_step [simplified])
    have upt: "[i..<length fs] = i # [i + 1..<length fs]"
      using True by (simp add: upt_conv_Cons)
    have "gif_frames (addFrames_loop i delay fs g) =
        (gif_frames g @ [(frame_canvas (fs ! i), d')]) @
          map (\<lambda>j. (frame_canvas (fs ! j), delay_from i delay fs j)) [i + 1..<length fs]"
      by (simp only: step IH same)
    also have "\<dots> = gif_frames g @
        map (\<lambda>j. (frame_canvas (fs ! j), delay_from i delay fs j)) [i..<length fs]"
      by (simp only: upt d') simp
    finally show ?thesis .
  qed
qed

lemma delays_eq: "delays fs = map (delay_from 0 1000 fs) [0..<length fs]"
  by (simp add: delays_def addFrames_loop_frames comp_def)

lemma delays_nth: "i < length fs \<Longrightarrow> delays fs ! i = delay_from 0 1000 fs i"
  by (simp add: delays_eq)

text \<open>
  Claim C4, as the code has it. The export attaches one delay to every captured frame:
  frame \<open>i\<close> with a successor gets the difference of the two timestamps, the last of two
  or more frames repeats the delay of the frame before it, and a single frame gets the
  default of 1000 ms. Four frames at 0, 100, 250 and 400 ms therefore get the four delays
  100, 150, 150, 150.
\<close>

theorem delays_per_frame:
  "length (delays fs) = length fs
   \<and> (\<forall>i. i + 1 < length fs \<longrightarrow> delays fs ! i = timestamp (fs ! (i + 1)) - timestamp (fs ! i))
   \<and> (2 \<le> length fs \<longrightarrow>
        delays fs ! (length fs - 1) = delays fs ! (length fs - 2)
        \<and> delays fs ! (length fs - 1)
            = timestamp (fs ! (length fs - 1)) - timestamp (fs ! (length fs - 2)))
   \<and> (length fs = 1 \<longrightarrow> delays fs = [1000])
   \<and> delays (frames_at [0, 100, 250, 400]) = [100, 150, 150, 150]"
proof (intro conjI allI impI)
  show "length (delays fs) = length fs" by (simp add: delays_eq)
next
  fix i assume "i + 1 < length fs"
  then show "delays fs ! i = timestamp (fs ! (i + 1)) - timestamp (fs ! i)"
    by (simp add: delays_nth delay_from_def)
next
  assume n: "2 \<le> length fs"
  obtain k where k: "length fs = k + 2"
    using n by (metis add.commute le_Suc_ex)
  have a: "delays fs ! (k + 1) = timestamp (fs ! (k + 1)) - timestamp (fs ! k)"
    using k by (simp add: delays_nth delay_from_def)
  have b: "delays fs ! k = timestamp (fs ! (k + 1)) - timestamp (fs ! k)"
    using k by (simp add: delays_nth delay_from_def)
  have i: "length fs - 1 = k + 1" "length fs - 2 = k" using k by simp_all
  from a b show "delays fs ! (length fs - 1) = delays fs ! (length fs - 2)"
    by (simp only: i)
  from a show "delays fs ! (length fs - 1) = timestamp (fs ! (length fs - 1)) - timestamp (fs ! (length fs - 2))"
    by (simp only: i)
next
  assume "length fs = 1"
  then show "delays fs = [1000]"
    by (simp add: delays_eq delay_from_def)
next
  show "delays (frames_at [0, 100, 250, 400]) = [100, 150, 150, 150]"
    by (simp add: delays_def frames_at_def addFrames_loop.simps)
qed

theorem delays_per_frame_witness:
  "delays (frames_at [0, 50, 120]) ! 0 = 50
   \<and> delays (frames_at [0, 50, 120]) ! 2 = delays (frames_at [0, 50, 120]) ! 1
   \<and> delays (frames_at [0, 50, 120]) ! 2 = 70
   \<and> delays (frames_at [7]) = [1000]"
proof -
  let ?fs = "frames_at [0, 50, 120]"
  have len: "length ?fs = 3" by (simp add: frames_at_def)
  note T = delays_per_frame [of ?fs, unfolded len]
  from T have d: "\<forall>i. i + 1 < 3 \<longrightarrow> delays ?fs ! i = timestamp (?fs ! (i + 1)) - timestamp (?fs ! i)"
    by blast
  from T have e: "2 \<le> (3::nat) \<longrightarrow> delays ?fs ! (3 - 1) = delays ?fs ! (3 - 2)
      \<and> delays ?fs ! (3 - 1) = timestamp (?fs ! (3 - 1)) - timestamp (?fs ! (3 - 2))"
    by blast
  have ts: "timestamp (?fs ! 0) = 0" "timestamp (?fs ! 1) = 50" "timestamp (?fs ! 2) = 120"
    by (simp_all add: frames_at_def)
  have d0: "delays ?fs ! 0 = 50"
    using d [rule_format, of 0] ts by simp
  have d2: "delays ?fs ! 2 = delays ?fs ! 1" "delays ?fs ! 2 = 70"
    using e ts by simp_all
  have len1: "length (frames_at [7]) = 1" by (simp add: frames_at_def)
  have B: "delays (frames_at [7]) = [1000]"
    using delays_per_frame [of "frames_at [7]"] len1 by blast
  from d0 d2 B show ?thesis by simp
qed

text \<open>
  Claim C4 as worded gives three delays for the four timestamps 0, 100, 250, 400; the
  export loop produces four.
\<close>

theorem delays_example_counterexample:
  "delays (frames_at [0, 100, 250, 400]) \<noteq> [100, 150, 150]"
  by (simp add: delays_def frames_at_def addFrames_loop.simps)

subsection \<open>The capture session\<close>

text \<open>
  Claim C9. A stop with no captured frame sets the progress text to \<^verbatim>\<open>No frames\<close>,
  creates no encoder and appends no result, and leaves the recorder idle: not active,
  the record button enabled, the frame sequence still empty. The model of the recorder
  has no throwing path. A click on the record button of an armed recorder is such a stop.
\<close>

theorem stop_without_frames:
  assumes "frames self = []"
  shows "progressText_innerText (stop self) = ''No frames''
       \<and> gifs (stop self) = gifs self
       \<and> results (stop self) = results self
       \<and> frames (stop self) = []
       \<and> \<not> active (stop self)
       \<and> \<not> btnRecord_disabled (stop self)
       \<and> session (stop self) = Idle
       \<and> (active self \<longrightarrow> btnRecord_onclick self = stop self)"
  using assms by (simp add: stop_def generateGif_def session_def btnRecord_onclick_def)

theorem stop_without_frames_witness:
  "frames (start (new_GifRecorder ''Record'' [] :: unit gif_recorder)) = []
   \<and> active (start (new_GifRecorder ''Record'' [] :: unit gif_recorder))
   \<and> progressText_innerText
        (btnRecord_onclick (start (new_GifRecorder ''Record'' [] :: unit gif_recorder)))
       = ''No frames''
   \<and> gifs (btnRecord_onclick (start (new_GifRecorder ''Record'' [] :: unit gif_recorder))) = []
   \<and> session (btnRecord_onclick (start (new_GifRecorder ''Record'' [] :: unit gif_recorder)))
       = Idle"
proof -
  let ?r = "start (new_GifRecorder ''Record'' [] :: unit gif_recorder)"
  have f: "frames ?r = []" by (simp add: start_def new_GifRecorder_def)
  have a: "active ?r" by (simp add: start_def new_GifRecorder_def)
  have g: "gifs ?r = []" by (simp add: start_def new_GifRecorder_def)
  from stop_without_frames [OF f] a g f show ?thesis by simp
qed

text \<open>
  Claim C2 at a concrete session. After the encoder aborts, the recorder is idle but the
  captured frame is still in the sequence, and a frame captured in the next session is
  appended behind it; after \<^verbatim>\<open>finished\<close> the sequence is empty.
\<close>

theorem abort_keeps_frames:
  "frames (gif_on ev_abort recorded_once) = [\<lparr>timestamp = 0, frame_canvas = blank_canvas\<rparr>]
   \<and> session (gif_on ev_abort recorded_once) = Idle
   \<and> frames (addFrame 9 blank_canvas (btnRecord_onclick (gif_on ev_abort recorded_once)))
       = [\<lparr>timestamp = 0, frame_canvas = blank_canvas\<rparr>,
          \<lparr>timestamp = 9, frame_canvas = blank_canvas\<rparr>]
   \<and> frames (gif_on (ev_finished ()) recorded_once) = []
   \<and> session (gif_on (ev_finished ()) recorded_once) = Idle"
  by (simp add: recorded_once_def new_GifRecorder_def btnRecord_onclick_def start_def stop_def
      addFrame_def generateGif_def session_def clear_def blank_canvas_def Let_def)

text \<open>
  Claim C8, as the code has it. \<^verbatim>\<open>start\<close> is idempotent and touches neither the frame
  sequence nor the encoders. A click on the record button of a disarmed recorder calls
  \<^verbatim>\<open>start\<close>, never \<^verbatim>\<open>stop\<close>. \<^verbatim>\<open>stop\<close> called on a disarmed recorder with no frames
  starts no export but is not a no-op: it sets the button text and the progress text.
\<close>

theorem start_idempotent_stop_gated:
  "start (start self) = start self
   \<and> frames (start self) = frames self
   \<and> gifs (start self) = gifs self
   \<and> (\<not> active self \<longrightarrow> btnRecord_onclick self = start self)
   \<and> (\<not> active self \<and> frames self = [] \<longrightarrow>
        stop self = self\<lparr>btnRecord_disabled := False,
                         btnRecord_innerText := ''Record'',
                         progressText_innerText := ''No frames''\<rparr>)"
  by (simp add: start_def btnRecord_onclick_def stop_def generateGif_def)

theorem start_idempotent_stop_gated_witness:
  "\<not> active (new_GifRecorder ''Record'' [] :: unit gif_recorder)
   \<and> frames (new_GifRecorder ''Record'' [] :: unit gif_recorder) = []
   \<and> btnRecord_onclick (new_GifRecorder ''Record'' [] :: unit gif_recorder)
       = start (new_GifRecorder ''Record'' [])
   \<and> progressText_innerText (stop (new_GifRecorder ''Record'' [] :: unit gif_recorder))
       = ''No frames''"
proof -
  let ?r = "new_GifRecorder ''Record'' [] :: unit gif_recorder"
  have a: "\<not> active ?r" and f: "frames ?r = []" by (simp_all add: new_GifRecorder_def)
  from start_idempotent_stop_gated [of ?r] a f
  have "btnRecord_onclick ?r = start ?r"
    and "stop ?r = ?r\<lparr>btnRecord_disabled := False, btnRecord_innerText := ''Record'',
                         progressText_innerText := ''No frames''\<rparr>"
    by blast+
  with a f show ?thesis by simp
qed

text \<open>
  Claim C8 as worded fails for \<^verbatim>\<open>stop\<close>: on a freshly constructed (disarmed) recorder
  it changes the progress text.
\<close>

theorem stop_disarmed_counterexample:
  "\<not> active (new_GifRecorder ''Record'' [] :: unit gif_recorder)
   \<and> stop (new_GifRecorder ''Record'' [] :: unit gif_recorder) \<noteq> new_GifRecorder ''Record'' []"
proof -
  let ?r = "new_GifRecorder ''Record'' [] :: unit gif_recorder"
  have "progressText_innerText (stop ?r) = ''No frames''"
    by (simp add: new_GifRecorder_def stop_def generateGif_def)
  moreover have "progressText_innerText ?r = []"
    by (simp add: new_GifRecorder_def)
  ultimately have "stop ?r \<noteq> ?r" by auto
  moreover have "\<not> active ?r" by (simp add: new_GifRecorder_def)
  ultimately show ?thesis by simp
qed

subsection \<open>The tint of a light\<close>

lemma round_half_up_bounds:
  "of_int (round_half_up r) - 1 / 2 \<le> r \<and> r < of_int (round_half_up r) + 1 / 2"
  unfolding round_half_up_def by linarith

lemma round_half_up_mono: "r \<le> r' \<Longrightarrow> round_half_up r \<le> round_half_up r'"
  unfolding round_half_up_def by (simp add: floor_mono)

lemma round_half_up_of_int: "round_half_up (of_int k) = k"
  unfolding round_half_up_def by linarith

lemma tint_channel_0: "tint_channel 0 = 30"
  using round_half_up_of_int [of 0] by (simp add: tint_channel_def offPixelBrightness_def)

lemma tint_channel_255: "tint_channel 255 = 255"
  using round_half_up_of_int [of 225] by (simp add: tint_channel_def offPixelBrightness_def)

lemma tint_channel_mono: "c \<le> c' \<Longrightarrow> tint_channel c \<le> tint_channel c'"
  unfolding tint_channel_def offPixelBrightness_def
  by (simp add: round_half_up_mono divide_right_mono)

text \<open>
  Claim C10. For a channel value between 0 and 255 the remapped value
  \<open>offPixelBrightness + round ((255 - offPixelBrightness) * c / 255)\<close> lies between the
  floor (30) and 255, and the remap is monotone.
\<close>

theorem tint_channel_range:
  assumes "0 \<le> c" "c \<le> 255"
  shows "tint_channel c
           = offPixelBrightness + round_half_up ((255 - of_int offPixelBrightness) * c / 255)
       \<and> offPixelBrightness \<le> tint_channel c \<and> tint_channel c \<le> 255
       \<and> 30 \<le> tint_channel c
       \<and> (\<forall>c'. c \<le> c' \<longrightarrow> tint_channel c \<le> tint_channel c')"
  using tint_channel_mono [OF assms(1)] tint_channel_mono [OF assms(2)] tint_channel_mono [of c]
  by (simp add: tint_channel_0 tint_channel_255 offPixelBrightness_def)
    (simp add: tint_channel_def offPixelBrightness_def)

theorem tint_channel_range_witness:
  "(0::rat) \<le> 128 \<and> (128::rat) \<le> 255 \<and> 30 \<le> tint_channel 128 \<and> tint_channel 128 \<le> 255
   \<and> tint_channel 128 \<le> tint_channel 200"
proof -
  have a: "(0::rat) \<le> 128" and b: "(128::rat) \<le> 255" and c: "(128::rat) \<le> 200" by simp_all
  from tint_channel_range [OF a b]
  have "30 \<le> tint_channel 128" and "tint_channel 128 \<le> 255"
    and "\<forall>c'. 128 \<le> c' \<longrightarrow> tint_channel 128 \<le> tint_channel c'"
    by blast+
  with a b c show ?thesis by blast
qed

text \<open>
  Claim C6, as the code has it. The remap sends a channel value \<open>c\<close> to the integer nearest
  to \<open>floor + (255 - floor) * c / 255\<close>, where \<open>floor\<close> is 30. The colour (0, 0, 0) becomes
  (30, 30, 30) and (255, 255, 255) stays (255, 255, 255); a frame of these two colours is
  drawn as two sprites filled with \<^verbatim>\<open>rgb(30, 30, 30)\<close> and \<^verbatim>\<open>rgb(255, 255, 255)\<close>.
\<close>

theorem tint_channel_nearest:
  "of_int (tint_channel c) - 1 / 2
      \<le> of_int offPixelBrightness + (255 - of_int offPixelBrightness) * c / 255
   \<and> of_int offPixelBrightness + (255 - of_int offPixelBrightness) * c / 255
      < of_int (tint_channel c) + 1 / 2
   \<and> offPixelBrightness = 30
   \<and> tint_pixel (0, 0, 0) = (30, 30, 30)
   \<and> tint_pixel (255, 255, 255) = (255, 255, 255)
   \<and> content (canvas (state_of
        (render (setPixels [(0, 0, 0), (255, 255, 255)] (loaded_renderer [(0, 0), (10, 0)])) ())))
      = [fillRect source_over ''black'' (Num 0) (Num 0) (Num 600) (Num 20),
         drawImage lighten
           [drawImage_sprite source_over, fillRect_tint source_in ''rgb(30, 30, 30)'']
           (Num 0) (Num 0),
         drawImage lighten
           [drawImage_sprite source_over, fillRect_tint source_in ''rgb(255, 255, 255)'']
           (Num 580) (Num 0)]"
proof -
  from round_half_up_bounds [of "(255 - of_int offPixelBrightness) * c / 255"]
  have "of_int (tint_channel c) - 1 / 2
      \<le> of_int offPixelBrightness + (255 - of_int offPixelBrightness) * c / 255"
    and "of_int offPixelBrightness + (255 - of_int offPixelBrightness) * c / 255
      < of_int (tint_channel c) + 1 / 2"
    by (simp_all add: tint_channel_def)
  moreover have "offPixelBrightness = 30"
    by (simp add: offPixelBrightness_def)
  moreover have "tint_pixel (0, 0, 0) = (30, 30, 30)"
    and "tint_pixel (255, 255, 255) = (255, 255, 255)"
    by (simp_all add: tint_pixel_def tint_channel_0 tint_channel_255)
  moreover have "content (canvas (state_of
        (render (setPixels [(0, 0, 0), (255, 255, 255)] (loaded_renderer [(0, 0), (10, 0)])) ())))
      = [fillRect source_over ''black'' (Num 0) (Num 0) (Num 600) (Num 20),
         drawImage lighten
           [drawImage_sprite source_over, fillRect_tint source_in ''rgb(30, 30, 30)'']
           (Num 0) (Num 0),
         drawImage lighten
           [drawImage_sprite source_over, fillRect_tint source_in ''rgb(255, 255, 255)'']
           (Num 580) (Num 0)]"
    by code_simp
  ultimately show ?thesis by blast
qed

text \<open>
  Claim C6 as worded leaves the rounding out: the channel value 1 is sent to 31, not to
  \<open>30 + 225 / 255\<close>.
\<close>

theorem tint_channel_unrounded_counterexample:
  "of_int (tint_channel 1)
     \<noteq> (of_int offPixelBrightness + (255 - of_int offPixelBrightness) * 1 / 255 :: rat)"
proof -
  have "tint_channel 1 = 31" by code_simp
  then show ?thesis by (simp add: offPixelBrightness_def)
qed

subsection \<open>Geometry normalization\<close>

lemma Min_step:
  fixes a :: rat
  assumes "finite S"
  shows "Min (insert (if x < a then x else a) S) = Min (insert a (insert x S))"
proof -
  have e: "(if x < a then x else a) = min a x" by (simp add: min_def)
  show ?thesis
  proof (cases "S = {}")
    case True
    then show ?thesis by (simp add: e)
  next
    case False
    with assms show ?thesis by (simp add: e min.assoc)
  qed
qed

lemma Max_step:
  fixes b :: rat
  assumes "finite S"
  shows "Max (insert (if x > b then x else b) S) = Max (insert b (insert x S))"
proof (cases "S = {}")
  case True
  then show ?thesis by (simp add: max_def)
next
  case False
  with assms show ?thesis by (simp add: max_def)
qed

text \<open>The bounding-box loop computes the least and greatest coordinate on each axis.\<close>

lemma bbox_loop_inv:
  "bbox_loop i m (a, b, c, d) =
     (Min (insert a (fst ` set (drop i m))), Max (insert b (fst ` set (drop i m))),
      Min (insert c (snd ` set (drop i m))), Max (insert d (snd ` set (drop i m))))"
proof (induction i m "(a, b, c, d)" arbitrary: a b c d rule: bbox_loop.induct)
  case (1 i m xMin xMax yMin yMax)
  show ?case
  proof (cases "i < length m")
    case False
    then show ?thesis by (simp add: bbox_loop.simps)
  next
    case True
    then have dr: "drop i m = m ! i # drop (i + 1) m"
      by (simp add: Cons_nth_drop_Suc)
    have step: "bbox_loop i m (xMin, xMax, yMin, yMax) =
        bbox_loop (i + 1) m
          (if fst (m ! i) < xMin then fst (m ! i) else xMin,
           if fst (m ! i) > xMax then fst (m ! i) else xMax,
           if snd (m ! i) < yMin then snd (m ! i) else yMin,
           if snd (m ! i) > yMax then snd (m ! i) else yMax)"
      using True by (subst bbox_loop.simps) (simp add: Let_def)
    show ?thesis
      unfolding step
      by (subst "1.hyps" [OF True refl refl refl refl refl])
        (simp add: dr Min_step Max_step del: Min_insert Max_insert)
  qed
qed

lemma bbox_eq:
  assumes "m \<noteq> []"
  shows "bbox m = (Min (fst ` set m), Max (fst ` set m), Min (snd ` set m), Max (snd ` set m))"
proof -
  from assms have m: "m = m ! 0 # drop 1 m"
    by (cases m) simp_all
  have f: "insert (fst (m ! 0)) (fst ` set (drop 1 m)) = fst ` set m"
    and s: "insert (snd (m ! 0)) (snd ` set (drop 1 m)) = snd ` set m"
    by (subst (3) m, simp)+
  show ?thesis
    unfolding bbox_def bbox_loop_inv f s ..
qed

lemma bbox_ordered:
  assumes "m \<noteq> []" "bbox m = (xMin, xMax, yMin, yMax)"
  shows "xMin \<le> xMax" "yMin \<le> yMax"
proof -
  from bbox_eq [OF assms(1)] assms(2)
  have box: "xMin = Min (fst ` set m)" "xMax = Max (fst ` set m)"
    "yMin = Min (snd ` set m)" "yMax = Max (snd ` set m)"
    by simp_all
  from assms(1) obtain p where p: "p \<in> set m" by (cases m) auto
  then have "xMin \<le> fst p" "fst p \<le> xMax" "yMin \<le> snd p" "snd p \<le> yMax"
    by (simp_all add: box)
  then show "xMin \<le> xMax" "yMin \<le> yMax" by simp_all
qed

lemma resizeCanvas_wide:
  assumes "layout_map self = Some m" "m \<noteq> []" "tintCtx self = Some t"
    and "bbox m = (xMin, xMax, yMin, yMax)"
    and "js_gt (js_sub (Num xMax) (Num xMin)) (js_sub (Num yMax) (Num yMin))"
  shows "resizeCanvas self =
     (set_canvas_size (Num maxSize)
        (js_add (Math_round (js_mul (js_sub (Num yMax) (Num yMin))
           (js_div (js_sub (Num maxSize) (Num (of_nat (image_width self))))
              (js_sub (Num xMax) (Num xMin)))))
           (Num (of_nat (image_height self))))
        (self\<lparr>scaling := js_div (js_sub (Num maxSize) (Num (of_nat (image_width self))))
                            (js_sub (Num xMax) (Num xMin))\<rparr>))
       \<lparr>xOffset := - xMin, yOffset := - yMin\<rparr>"
  using assms unfolding resizeCanvas_def
  by (simp add: Let_def del: js_div.simps js_mul.simps js_add.simps Math_round.simps)

lemma resizeCanvas_tall:
  assumes "layout_map self = Some m" "m \<noteq> []" "tintCtx self = Some t"
    and "bbox m = (xMin, xMax, yMin, yMax)"
    and "\<not> js_gt (js_sub (Num xMax) (Num xMin)) (js_sub (Num yMax) (Num yMin))"
  shows "resizeCanvas self =
     (set_canvas_size
        (js_add (Math_round (js_mul (js_sub (Num xMax) (Num xMin))
           (js_div (js_sub (Num maxSize) (Num (of_nat (image_height self))))
              (js_sub (Num yMax) (Num yMin)))))
           (Num (of_nat (image_width self))))
        (Num maxSize)
        (self\<lparr>scaling := js_div (js_sub (Num maxSize) (Num (of_nat (image_height self))))
                            (js_sub (Num yMax) (Num yMin))\<rparr>))
       \<lparr>xOffset := - xMin, yOffset := - yMin\<rparr>"
  using assms unfolding resizeCanvas_def
  by (simp add: Let_def del: js_div.simps js_mul.simps js_add.simps Math_round.simps)

lemma span_cases:
  assumes "lo \<le> hi"
  shows "js_sub (Num hi) (Num lo) = Infinity
       \<or> (\<exists>r. js_sub (Num hi) (Num lo) = Num r \<and> 0 \<le> r)"
proof -
  from assms have "0 \<le> hi + - lo" by simp
  from to_double_nonneg [OF this] show ?thesis by (simp add: js_sub_def)
qed

text \<open>
  Claim C5, as the code has it. Take a renderer whose sprite has loaded and a layout of at
  least one point, let \<open>(xMin, xMax, yMin, yMax)\<close> be the bounding box that the loop of
  \<^verbatim>\<open>resizeCanvas\<close> computes, and let the spans \<open>spanX = xMax - xMin\<close> and
  \<open>spanY = yMax - yMin\<close> not both be zero. Every \<open>-\<close>, \<open>/\<close> and \<open>*\<close> is the operation on
  doubles, which rounds the exact result to the nearest double. Then the box holds the
  least and greatest coordinate on each axis; if \<open>spanX > spanY\<close> the divisor \<open>spanX\<close> is
  not zero, the scale is \<open>(maxSize - sprite width) / spanX\<close>, the canvas is \<open>maxSize\<close>
  wide and \<open>round (spanY * scale) + sprite height\<close> high; otherwise (a tie included) the
  divisor \<open>spanY\<close> is not zero, the scale is \<open>(maxSize - sprite height) / spanY\<close>, the
  canvas is \<open>maxSize\<close> high and \<open>round (spanX * scale) + sprite width\<close> wide; and the
  offsets are \<open>- xMin\<close> and \<open>- yMin\<close>. The bound \<open>maxSize\<close> is 600. The width and
  height are the values assigned to the canvas. For the layout (0,0), (10,0), (0,10) and a
  20 by 20 sprite the scale is 58 and the canvas 600 by 600.
\<close>

theorem resizeCanvas_fit:
  assumes "layout_map self = Some m" "m \<noteq> []" "tintCtx self = Some t"
    and "bbox m = (xMin, xMax, yMin, yMax)"
    and "spanX = js_sub (Num xMax) (Num xMin)" "spanY = js_sub (Num yMax) (Num yMin)"
    and "spanX \<noteq> Num 0 \<or> spanY \<noteq> Num 0"
  shows "xMin = Min (fst ` set m) \<and> xMax = Max (fst ` set m)
    \<and> yMin = Min (snd ` set m) \<and> yMax = Max (snd ` set m)
    \<and> (js_gt spanX spanY \<longrightarrow>
         spanX \<noteq> Num 0
         \<and> scaling (resizeCanvas self)
             = js_div (js_sub (Num maxSize) (Num (of_nat (image_width self)))) spanX
         \<and> width (canvas (resizeCanvas self)) = Num maxSize
         \<and> height (canvas (resizeCanvas self))
             = js_add (Math_round (js_mul spanY (scaling (resizeCanvas self))))
                 (Num (of_nat (image_height self))))
    \<and> (\<not> js_gt spanX spanY \<longrightarrow>
         spanY \<noteq> Num 0
         \<and> scaling (resizeCanvas self)
             = js_div (js_sub (Num maxSize) (Num (of_nat (image_height self)))) spanY
         \<and> height (canvas (resizeCanvas self)) = Num maxSize
         \<and> width (canvas (resizeCanvas self))
             = js_add (Math_round (js_mul spanX (scaling (resizeCanvas self))))
                 (Num (of_nat (image_width self))))
    \<and> xOffset (resizeCanvas self) = - xMin
    \<and> yOffset (resizeCanvas self) = - yMin
    \<and> maxSize = 600
    \<and> scaling (loaded_renderer [(0, 0), (10, 0), (0, 10)]) = Num 58
    \<and> height (canvas (loaded_renderer [(0, 0), (10, 0), (0, 10)])) = Num 600
    \<and> width (canvas (loaded_renderer [(0, 0), (10, 0), (0, 10)])) = Num 600"
proof -
  have example: "scaling (loaded_renderer [(0, 0), (10, 0), (0, 10)]) = Num 58
    \<and> height (canvas (loaded_renderer [(0, 0), (10, 0), (0, 10)])) = Num 600
    \<and> width (canvas (loaded_renderer [(0, 0), (10, 0), (0, 10)])) = Num 600"
    by code_simp
  from bbox_eq [OF assms(2)] assms(4)
  have box: "xMin = Min (fst ` set m) \<and> xMax = Max (fst ` set m)
      \<and> yMin = Min (snd ` set m) \<and> yMax = Max (snd ` set m)"
    by simp
  from span_cases [OF bbox_ordered(1) [OF assms(2,4)]]
  have sx: "spanX = Infinity \<or> (\<exists>r. spanX = Num r \<and> 0 \<le> r)"
    by (simp add: assms(5))
  from span_cases [OF bbox_ordered(2) [OF assms(2,4)]]
  have sy: "spanY = Infinity \<or> (\<exists>r. spanY = Num r \<and> 0 \<le> r)"
    by (simp add: assms(6))
  show ?thesis
  proof (cases "js_gt spanX spanY")
    case True
    have nz: "spanX \<noteq> Num 0"
    proof
      assume "spanX = Num 0"
      with True sy show False by (auto simp: js_gt_def)
    qed
    have g: "js_gt (js_sub (Num xMax) (Num xMin)) (js_sub (Num yMax) (Num yMin))"
      unfolding assms(5,6) [symmetric] by (rule True)
    note rc = resizeCanvas_wide [OF assms(1-4) g, folded assms(5,6)]
    have "scaling (resizeCanvas self)
             = js_div (js_sub (Num maxSize) (Num (of_nat (image_width self)))) spanX"
      and "width (canvas (resizeCanvas self)) = Num maxSize"
      and "height (canvas (resizeCanvas self))
             = js_add (Math_round (js_mul spanY (scaling (resizeCanvas self))))
                 (Num (of_nat (image_height self)))"
      and "xOffset (resizeCanvas self) = - xMin" and "yOffset (resizeCanvas self) = - yMin"
      unfolding rc
      by (simp_all add: set_canvas_size_def
          del: js_div.simps js_mul.simps js_add.simps Math_round.simps)
    moreover have "maxSize = 600" by (simp add: maxSize_def)
    ultimately show ?thesis using box True nz example by blast
  next
    case False
    have nz: "spanY \<noteq> Num 0"
    proof
      assume z: "spanY = Num 0"
      with assms(7) have "spanX \<noteq> Num 0" by simp
      with sx have "js_gt spanX (Num 0)" by (auto simp: js_gt_def)
      with False z show False by simp
    qed
    have g: "\<not> js_gt (js_sub (Num xMax) (Num xMin)) (js_sub (Num yMax) (Num yMin))"
      unfolding assms(5,6) [symmetric] by (rule False)
    note rc = resizeCanvas_tall [OF assms(1-4) g, folded assms(5,6)]
    have "scaling (resizeCanvas self)
             = js_div (js_sub (Num maxSize) (Num (of_nat (image_height self)))) spanY"
      and "height (canvas (resizeCanvas self)) = Num maxSize"
      and "width (canvas (resizeCanvas self))
             = js_add (Math_round (js_mul spanX (scaling (resizeCanvas self))))
                 (Num (of_nat (image_width self)))"
      and "xOffset (resizeCanvas self) = - xMin" and "yOffset (resizeCanvas self) = - yMin"
      unfolding rc
      by (simp_all add: set_canvas_size_def
          del: js_div.simps js_mul.simps js_add.simps Math_round.simps)
    moreover have "maxSize = 600" by (simp add: maxSize_def)
    ultimately show ?thesis using box False nz example by blast
  qed
qed

text \<open>
  At the layout (0,0), (10,0), (0,10) with a 20 by 20 sprite both spans are 10 and the tie
  takes the second branch.
\<close>

theorem resizeCanvas_fit_witness:
  "bbox [(0, 0), (10, 0), (0, 10)] = (0, 10, 0, 10)
   \<and> js_sub (Num 10) (Num 0) = Num 10
   \<and> scaling (loaded_renderer [(0, 0), (10, 0), (0, 10)]) = Num 58
   \<and> height (canvas (loaded_renderer [(0, 0), (10, 0), (0, 10)])) = Num 600
   \<and> width (canvas (loaded_renderer [(0, 0), (10, 0), (0, 10)])) = Num 600
   \<and> xOffset (loaded_renderer [(0, 0), (10, 0), (0, 10)]) = 0
   \<and> yOffset (loaded_renderer [(0, 0), (10, 0), (0, 10)]) = 0"
proof -
  let ?m = "[(0, 0), (10, 0), (0, 10)] :: point list"
  let ?t = "\<lparr>tint_globalCompositeOperation = source_over, tint_fillStyle = ''#000000'',
             tint_content = []\<rparr>"
  let ?self = "(image_onload 20 20 (new_StripRenderer blank_canvas :: unit strip_renderer))
                 \<lparr>layout_map := Some ?m\<rparr>"
  have l: "loaded_renderer ?m = resizeCanvas ?self"
    by (simp add: loaded_renderer_def setMap_def)
  have a: "layout_map ?self = Some ?m" by simp
  have b: "?m \<noteq> []" by simp
  have c: "tintCtx ?self = Some ?t"
    by (simp add: image_onload_def new_StripRenderer_def resizeCanvas_def)
  have w: "image_width ?self = 20" "image_height ?self = 20"
    by (simp_all add: image_onload_def new_StripRenderer_def resizeCanvas_def)
  have box: "bbox ?m = (0, 10, 0, 10)"
    by (simp add: bbox_def bbox_loop.simps)
  have span: "js_sub (Num 10) (Num 0) = Num 10" by code_simp
  have d: "js_sub (Num 10) (Num 0) \<noteq> Num 0 \<or> js_sub (Num 10) (Num 0) \<noteq> Num 0"
    by (simp only: span) simp
  have tie: "\<not> js_gt (Num 10) (Num 10)" by (simp add: js_gt_def)
  have avail: "js_sub (Num maxSize) (Num (of_nat 20)) = Num 580" by code_simp
  have scale: "js_div (Num 580) (Num 10) = Num 58" by code_simp
  have size: "js_add (Math_round (js_mul (Num 10) (Num 58))) (Num 20) = Num 600"
    by code_simp
  from resizeCanvas_fit [OF a b c box refl refl d]
  have "\<not> js_gt (Num 10) (Num 10) \<longrightarrow>
         scaling (resizeCanvas ?self) = js_div (Num 580) (Num 10)
         \<and> height (canvas (resizeCanvas ?self)) = Num maxSize
         \<and> width (canvas (resizeCanvas ?self))
             = js_add (Math_round (js_mul (Num 10) (scaling (resizeCanvas ?self))))
                 (Num (of_nat 20))"
    and "xOffset (resizeCanvas ?self) = - 0" and "yOffset (resizeCanvas ?self) = - 0"
    unfolding span w avail by blast+
  with tie have "scaling (resizeCanvas ?self) = Num 58"
    and "height (canvas (resizeCanvas ?self)) = Num 600"
    and "width (canvas (resizeCanvas ?self)) = Num 600"
    and "xOffset (resizeCanvas ?self) = 0" and "yOffset (resizeCanvas ?self) = 0"
    by (simp_all add: scale size maxSize_def
        del: js_div.simps js_mul.simps js_add.simps Math_round.simps)
  with box span show ?thesis
    unfolding l by blast
qed

text \<open>
  Claim C5 as worded, with exact quotient and product, fails: for the layout (0,0),
  (120,51) and a 20 by 20 sprite the exact scale is \<open>29 / 6\<close> and the exact product
  \<open>51 * 29 / 6\<close> is \<open>246.5\<close>, which rounds to 247 and gives the height 267. The code
  divides and multiplies in doubles: the scale is the double below \<open>29 / 6\<close>, the product
  is the double below \<open>246.5\<close>, and the canvas is 266 high.
\<close>

theorem resizeCanvas_exact_counterexample:
  "bbox [(0, 0), (120, 51)] = (0, 120, 0, 51)
   \<and> height (canvas (loaded_renderer [(0, 0), (120, 51)])) = Num 266
   \<and> Num (of_int (round_half_up ((51 - 0) * ((maxSize - of_nat 20) / (120 - 0)))) + of_nat 20)
       = Num 267
   \<and> scaling (loaded_renderer [(0, 0), (120, 51)]) = Num (5441849549739349 / 2 ^ 50)
   \<and> scaling (loaded_renderer [(0, 0), (120, 51)]) \<noteq> Num ((maxSize - of_nat 20) / (120 - 0))"
  by code_simp

text \<open>
  Claim C3. Take a renderer whose sprite has loaded and a layout of at least one point
  whose bounding box has both spans zero (all points coincide). \<^verbatim>\<open>resizeCanvas\<close> takes
  the second branch and divides by the zero span: the scale is
  \<open>(maxSize - sprite height) / 0\<close>, which is no finite number (\<^verbatim>\<open>Infinity\<close> for a sprite
  lower than 600 pixels), and the canvas width computed from it is \<^verbatim>\<open>NaN\<close>.
\<close>

theorem resizeCanvas_zero_span:
  assumes "layout_map self = Some m" "m \<noteq> []" "tintCtx self = Some t"
    and "bbox m = (xMin, xMax, yMin, yMax)"
    and "xMax - xMin = 0" "yMax - yMin = 0"
  shows "(\<forall>p \<in> set m. p = (xMin, yMin))
       \<and> scaling (resizeCanvas self)
           = js_div (Num (maxSize - of_nat (image_height self))) (Num 0)
       \<and> \<not> isFinite (scaling (resizeCanvas self))
       \<and> (\<forall>r. scaling (resizeCanvas self) \<noteq> Num r)
       \<and> (image_height self < 600 \<longrightarrow> scaling (resizeCanvas self) = Infinity)
       \<and> width (canvas (resizeCanvas self)) = NaN"
proof -
  from assms(5,6) have z: "js_sub (Num xMax) (Num xMin) = Num 0"
    "js_sub (Num yMax) (Num yMin) = Num 0"
    by (simp_all add: js_sub_def to_double_0)
  have f: "\<not> js_gt (js_sub (Num xMax) (Num xMin)) (js_sub (Num yMax) (Num yMin))"
    by (simp add: z js_gt_def)
  have "maxSize - of_nat (image_height self) = of_int (600 - int (image_height self))"
    by (simp add: maxSize_def)
  then have "1 \<le> \<bar>maxSize - of_nat (image_height self)\<bar> \<or> maxSize - of_nat (image_height self) = 0"
    by (simp only:) (simp del: of_int_diff, linarith)
  from div_zero_to_double [OF this]
  have avail: "js_div (js_sub (Num maxSize) (Num (of_nat (image_height self)))) (Num 0)
      = js_div (Num (maxSize - of_nat (image_height self))) (Num 0)"
    by (simp add: js_sub_def)
  have s: "scaling (resizeCanvas self)
      = js_div (Num (maxSize - of_nat (image_height self))) (Num 0)"
    and w: "width (canvas (resizeCanvas self))
       = js_add (Math_round (js_mul (Num 0)
           (js_div (Num (maxSize - of_nat (image_height self))) (Num 0))))
           (Num (of_nat (image_width self)))"
    unfolding resizeCanvas_tall [OF assms(1-4) f] z avail
    by (simp_all add: set_canvas_size_def
         del: js_div.simps js_mul.simps js_add.simps Math_round.simps)
  have cases: "js_div (Num (maxSize - of_nat (image_height self))) (Num 0)
      \<in> {Infinity, NegInfinity, NaN}"
    by (simp add: inf_of_sign_def)
  have inf: "image_height self < 600 \<Longrightarrow>
      js_div (Num (maxSize - of_nat (image_height self))) (Num 0) = Infinity"
    by (simp add: inf_of_sign_def maxSize_def)
  from cases have wn: "width (canvas (resizeCanvas self)) = NaN"
    unfolding w by (auto simp: inf_of_sign_def)
  have same: "\<forall>p \<in> set m. p = (xMin, yMin)"
  proof
    fix p assume p: "p \<in> set m"
    from bbox_eq [OF assms(2)] assms(4)
    have box: "xMin = Min (fst ` set m)" "xMax = Max (fst ` set m)"
      "yMin = Min (snd ` set m)" "yMax = Max (snd ` set m)"
      by simp_all
    from p have "xMin \<le> fst p" "fst p \<le> xMax" "yMin \<le> snd p" "snd p \<le> yMax"
      by (simp_all add: box)
    with assms(5,6) have "fst p = xMin" "snd p = yMin" by simp_all
    then show "p = (xMin, yMin)" by (simp add: prod_eq_iff)
  qed
  from cases s inf wn same show ?thesis by auto
qed

theorem resizeCanvas_zero_span_witness:
  "bbox [(3, 4), (3, 4)] = (3, 3, 4, 4)
   \<and> scaling (loaded_renderer [(3, 4), (3, 4)]) = Infinity
   \<and> \<not> isFinite (scaling (loaded_renderer [(3, 4), (3, 4)]))
   \<and> width (canvas (loaded_renderer [(3, 4), (3, 4)])) = NaN"
proof -
  let ?m = "[(3, 4), (3, 4)] :: point list"
  let ?t = "\<lparr>tint_globalCompositeOperation = source_over, tint_fillStyle = ''#000000'',
             tint_content = []\<rparr>"
  let ?self = "(image_onload 20 20 (new_StripRenderer blank_canvas :: unit strip_renderer))
                 \<lparr>layout_map := Some ?m\<rparr>"
  have l: "loaded_renderer ?m = resizeCanvas ?self"
    by (simp add: loaded_renderer_def setMap_def)
  have a: "layout_map ?self = Some ?m" by simp
  have b: "?m \<noteq> []" by simp
  have c: "tintCtx ?self = Some ?t"
    by (simp add: image_onload_def new_StripRenderer_def resizeCanvas_def)
  have h: "image_height ?self < 600"
    by (simp add: image_onload_def new_StripRenderer_def resizeCanvas_def)
  have box: "bbox ?m = (3, 3, 4, 4)"
    by (simp add: bbox_def bbox_loop.simps)
  have sx: "(3::rat) - 3 = 0" and sy: "(4::rat) - 4 = 0" by simp_all
  from resizeCanvas_zero_span [OF a b c box sx sy] h box
  show ?thesis
    unfolding l by blast
qed

subsection \<open>Rendering a frame\<close>

lemma render_light_in_layout:
  assumes "tintCtx self = Some t" "i < length m"
  shows "\<exists>self'. render_light i px m self = Inr self' \<and> tintCtx self' \<noteq> None
           \<and> sprites_drawn (canvas self') = sprites_drawn (canvas self) + 1"
  using assms by (simp add: render_light_def Let_def sprites_drawn_def split: prod.split)

lemma render_light_past_layout:
  assumes "tintCtx self = Some t" "\<not> i < length m"
  shows "\<exists>self'. render_light i px m self = Inl (TypeError ''this.map[i] is undefined'', self')
           \<and> sprites_drawn (canvas self') = sprites_drawn (canvas self)"
  using assms by (simp add: render_light_def Let_def sprites_drawn_def)

lemma render_loop_throws:
  assumes "tintCtx self \<noteq> None" "i \<le> length m" "length m < l"
  shows "\<exists>self'. render_loop i l px m self = Inl (TypeError ''this.map[i] is undefined'', self')
           \<and> sprites_drawn (canvas self') = sprites_drawn (canvas self) + (length m - i)"
  using assms
proof (induction i l px m self rule: render_loop.induct)
  case (1 i l px m self)
  from "1.prems" obtain t where t: "tintCtx self = Some t" by auto
  from "1.prems" have il: "i < l" by simp
  show ?case
  proof (cases "i < length m")
    case False
    with "1.prems" have "length m - i = 0" by simp
    with render_light_past_layout [OF t False, of px] il show ?thesis
      by (subst render_loop.simps) auto
  next
    case True
    from render_light_in_layout [OF t True, of px] obtain s1 where
      s1: "render_light i px m self = Inr s1" "tintCtx s1 \<noteq> None"
        "sprites_drawn (canvas s1) = sprites_drawn (canvas self) + 1"
      by blast
    from True have "i + 1 \<le> length m" by simp
    from "1.IH" [OF il s1(1) s1(2) this "1.prems"(3)] obtain s2 where
      s2: "render_loop (i + 1) l px m s1 = Inl (TypeError ''this.map[i] is undefined'', s2)"
        "sprites_drawn (canvas s2) = sprites_drawn (canvas s1) + (length m - (i + 1))"
      by blast
    have "render_loop i l px m self = render_loop (i + 1) l px m s1"
      using il s1(1) by (subst render_loop.simps) simp
    with s2 s1(3) True show ?thesis by simp
  qed
qed

lemma render_absent:
  assumes "layout_map self = None \<or> pixels self = None"
  shows "render self w = Inr (self, w)"
  using assms by (auto simp: render_def split: option.splits)

lemma render_throws:
  assumes "layout_map self = Some m" "pixels self = Some px" "tintCtx self \<noteq> None"
    and "length m < length px"
  shows "\<exists>self'. render self w = Inl (TypeError ''this.map[i] is undefined'', self', w)
           \<and> sprites_drawn (canvas self') = sprites_drawn (canvas self) + length m"
proof -
  define s0 where "s0 = self\<lparr>ctx_fillStyle := ''black'',
      canvas := (canvas self)\<lparr>content := content (canvas self)
        @ [fillRect source_over ''black'' (Num 0) (Num 0)
             (width (canvas self)) (height (canvas self))]\<rparr>,
      ctx_globalCompositeOperation := lighten\<rparr>"
  have t: "tintCtx s0 \<noteq> None" using assms(3) by (simp add: s0_def)
  have d: "sprites_drawn (canvas s0) = sprites_drawn (canvas self)"
    by (simp add: s0_def sprites_drawn_def)
  have r: "render self w =
      (case render_loop 0 (length px) px m s0 of
         Inl (e, s) \<Rightarrow> Inl (e, s, w)
       | Inr s \<Rightarrow> Inr (s, callbacks_loop (renderCallbacks s) (canvas s) w))"
    using assms(1,2) by (simp add: render_def Let_def Math_min_def s0_def)
  from render_loop_throws [OF t _ assms(4), of 0 px] obtain s1 where
    "render_loop 0 (length px) px m s0 = Inl (TypeError ''this.map[i] is undefined'', s1)"
    "sprites_drawn (canvas s1) = sprites_drawn (canvas s0) + (length m - 0)"
    by auto
  with r d show ?thesis by simp
qed

text \<open>
  When the colour frame is no longer than the layout and the sprite has loaded,
  \<^verbatim>\<open>render\<close> returns: it fills the canvas black, draws one sprite per colour in
  \<^verbatim>\<open>lighten\<close> mode, light \<open>j\<close> at
  \<open>((x + xOffset) * scaling, canvas height - (y + yOffset) * scaling - sprite height)\<close>
  (in the arithmetic of doubles), and calls the render callbacks.
\<close>

lemma sprite_op_cong:
  "sprite_op (self\<lparr>tintCtx := T, canvas := (canvas self)\<lparr>content := C\<rparr>\<rparr>) px m j = sprite_op self px m j"
  by (simp add: sprite_op_def destination_def)

lemma render_light_draws:
  assumes "tintCtx self = Some t" "i < length m"
  shows "\<exists>t'. render_light i px m self =
           Inr (self\<lparr>tintCtx := Some t',
                     canvas := (canvas self)\<lparr>content := content (canvas self) @ [sprite_op self px m i]\<rparr>\<rparr>)"
  using assms
  by (simp add: render_light_def Let_def sprite_op_def destination_def split: prod.split)
    (rule exI, rule refl)

lemma render_loop_draws:
  assumes "tintCtx self = Some t" "l \<le> length m"
  shows "\<exists>t'. render_loop i l px m self =
           Inr (self\<lparr>tintCtx := Some t',
                     canvas := (canvas self)\<lparr>content := content (canvas self)
                        @ map (sprite_op self px m) [i..<l]\<rparr>\<rparr>)"
  using assms
proof (induction i l px m self arbitrary: t rule: render_loop.induct)
  case (1 i l px m self)
  show ?case
  proof (cases "i < l")
    case False
    have "self = self\<lparr>tintCtx := Some t, canvas := (canvas self)\<lparr>content := content (canvas self)\<rparr>\<rparr>"
      using "1.prems"(1) by simp
    with False show ?thesis
      by (subst render_loop.simps) (simp, metis)
  next
    case True
    with "1.prems" have im: "i < length m" by simp
    from render_light_draws [OF "1.prems"(1) im, of px] obtain t1 where
      s1: "render_light i px m self =
           Inr (self\<lparr>tintCtx := Some t1,
                     canvas := (canvas self)\<lparr>content := content (canvas self) @ [sprite_op self px m i]\<rparr>\<rparr>)"
      by blast
    define s1 where "s1 = self\<lparr>tintCtx := Some t1,
                     canvas := (canvas self)\<lparr>content := content (canvas self) @ [sprite_op self px m i]\<rparr>\<rparr>"
    have t1: "tintCtx s1 = Some t1" by (simp add: s1_def)
    from "1.IH" [OF True s1 [folded s1_def] t1 "1.prems"(2)] obtain t2 where
      s2: "render_loop (i + 1) l px m s1 =
           Inr (s1\<lparr>tintCtx := Some t2,
                     canvas := (canvas s1)\<lparr>content := content (canvas s1)
                        @ map (sprite_op s1 px m) [i + 1..<l]\<rparr>\<rparr>)"
      by blast
    have same: "sprite_op s1 px m = sprite_op self px m"
      by (rule ext) (simp add: s1_def sprite_op_cong)
    have upt: "[i..<l] = i # [i + 1..<l]"
      using True by (simp add: upt_conv_Cons)
    have "render_loop i l px m self = render_loop (i + 1) l px m s1"
      using True s1 by (subst render_loop.simps) (simp add: s1_def)
    also have "\<dots> = Inr (self\<lparr>tintCtx := Some t2,
                     canvas := (canvas self)\<lparr>content := content (canvas self)
                        @ map (sprite_op self px m) [i..<l]\<rparr>\<rparr>)"
      unfolding s2 same upt by (simp add: s1_def)
    finally show ?thesis by blast
  qed
qed

lemma render_draws:
  assumes "layout_map self = Some m" "pixels self = Some px" "tintCtx self = Some t"
    and "length px \<le> length m"
  shows "\<exists>self'. render self w = Inr (self', callbacks_loop (renderCallbacks self) (canvas self') w)
           \<and> content (canvas self') = content (canvas self)
                  @ fillRect source_over ''black'' (Num 0) (Num 0)
                      (width (canvas self)) (height (canvas self))
                  # map (\<lambda>j. drawImage lighten
                       [drawImage_sprite source_over,
                        fillRect_tint source_in (rgb_style (tint_pixel (px ! j)))]
                       (js_mul (js_add (Num (fst (m ! j))) (Num (xOffset self))) (scaling self))
                       (js_sub (js_sub (height (canvas self))
                                  (js_mul (js_add (Num (snd (m ! j))) (Num (yOffset self)))
                                     (scaling self)))
                               (Num (of_nat (image_height self)))))
                      [0..<length px]
           \<and> sprites_drawn (canvas self') = sprites_drawn (canvas self) + length px"
proof -
  define s0 where "s0 = self\<lparr>ctx_fillStyle := ''black'',
      canvas := (canvas self)\<lparr>content := content (canvas self)
        @ [fillRect source_over ''black'' (Num 0) (Num 0)
             (width (canvas self)) (height (canvas self))]\<rparr>,
      ctx_globalCompositeOperation := lighten\<rparr>"
  have t: "tintCtx s0 = Some t" using assms(3) by (simp add: s0_def)
  have r: "render self w =
      (case render_loop 0 (length px) px m s0 of
         Inl (e, s) \<Rightarrow> Inl (e, s, w)
       | Inr s \<Rightarrow> Inr (s, callbacks_loop (renderCallbacks s) (canvas s) w))"
    using assms(1,2) by (simp add: render_def Let_def Math_min_def s0_def)
  from render_loop_draws [OF t assms(4), of 0 px] obtain t' where
    l: "render_loop 0 (length px) px m s0 =
           Inr (s0\<lparr>tintCtx := Some t',
                     canvas := (canvas s0)\<lparr>content := content (canvas s0)
                        @ map (sprite_op s0 px m) [0..<length px]\<rparr>\<rparr>)"
    by blast
  have op: "sprite_op s0 px m = (\<lambda>j. drawImage lighten
                       [drawImage_sprite source_over,
                        fillRect_tint source_in (rgb_style (tint_pixel (px ! j)))]
                       (js_mul (js_add (Num (fst (m ! j))) (Num (xOffset self))) (scaling self))
                       (js_sub (js_sub (height (canvas self))
                                  (js_mul (js_add (Num (snd (m ! j))) (Num (yOffset self)))
                                     (scaling self)))
                               (Num (of_nat (image_height self)))))"
    by (rule ext) (simp add: sprite_op_def destination_def s0_def)
  define s' where "s' = s0\<lparr>tintCtx := Some t',
                     canvas := (canvas s0)\<lparr>content := content (canvas s0)
                        @ map (sprite_op s0 px m) [0..<length px]\<rparr>\<rparr>"
  have c1: "content (canvas s') = content (canvas s0) @ map (sprite_op s0 px m) [0..<length px]"
    by (simp add: s'_def)
  have c0: "content (canvas s0) = content (canvas self)
        @ [fillRect source_over ''black'' (Num 0) (Num 0)
             (width (canvas self)) (height (canvas self))]"
    by (simp add: s0_def)
  have cb: "renderCallbacks s' = renderCallbacks self"
    by (simp add: s'_def s0_def)
  have res: "render self w = Inr (s', callbacks_loop (renderCallbacks self) (canvas s') w)"
    unfolding r l s'_def [symmetric] by (simp add: cb)
  have n: "sprites_drawn (canvas s') = sprites_drawn (canvas self) + length px"
    unfolding sprites_drawn_def c1 c0 by (simp add: sprite_op_def comp_def)
  have c: "content (canvas s') = content (canvas self)
                  @ fillRect source_over ''black'' (Num 0) (Num 0)
                      (width (canvas self)) (height (canvas self))
                  # map (\<lambda>j. drawImage lighten
                       [drawImage_sprite source_over,
                        fillRect_tint source_in (rgb_style (tint_pixel (px ! j)))]
                       (js_mul (js_add (Num (fst (m ! j))) (Num (xOffset self))) (scaling self))
                       (js_sub (js_sub (height (canvas self))
                                  (js_mul (js_add (Num (snd (m ! j))) (Num (yOffset self)))
                                     (scaling self)))
                               (Num (of_nat (image_height self)))))
                      [0..<length px]"
    unfolding c1 c0 op by simp
  from res c n show ?thesis by blast
qed

text \<open>
  Claim C1 at a concrete frame. The loop bound is the length of the colour frame, not the
  lesser of the two lengths: with two lights and three colours the loop reaches index 2,
  reads the layout there and throws, after two sprites have been drawn.
\<close>

theorem render_extra_colour_throws:
  "thrown (render (setPixels [(0, 0, 0), (255, 255, 255), (10, 20, 30)]
             (loaded_renderer [(0, 0), (10, 0)])) ())
     = Some (TypeError ''this.map[i] is undefined'')
   \<and> sprites_drawn (canvas (state_of (render (setPixels [(0, 0, 0), (255, 255, 255), (10, 20, 30)]
             (loaded_renderer [(0, 0), (10, 0)])) ()))) = 2
   \<and> Math_min (length [(0, 0, 0), (255, 255, 255), (10, 20, 30 :: rat)])
        (length [(0, 0, 0), (255, 255, 255), (10, 20, 30 :: rat)]) = 3"
  by code_simp

text \<open>
  Claim C7 at a concrete frame. With an empty layout and one colour, \<^verbatim>\<open>render\<close> fills the
  canvas, tints the scratch canvas, reads the layout at index 0 and throws.
\<close>

theorem render_empty_layout_throws:
  "thrown (render (setPixels [(0, 0, 0)] (loaded_renderer [])) ())
     = Some (TypeError ''this.map[i] is undefined'')
   \<and> content (canvas (state_of (render (setPixels [(0, 0, 0)] (loaded_renderer [])) ())))
     = [fillRect source_over ''black'' (Num 0) (Num 0) (Num 300) (Num 150)]
   \<and> map_option tint_content
        (tintCtx (state_of (render (setPixels [(0, 0, 0)] (loaded_renderer [])) ())))
     = Some [drawImage_sprite source_over, fillRect_tint source_in ''rgb(30, 30, 30)'']"
  by code_simp

end
